theory Spec2Isabelle
  imports Complex_Main "HOL-Library.Multiset"
begin

section \<open>Random source\<close>

text \<open>
  The rules engine and the enemy AI draw from the global \<^verbatim>\<open>Math.random()\<close>. The model
  makes the source explicit: \<open>rnd k\<close> is the value returned by the \<open>k\<close>-th call (a number in
  \<open>[0, 1)\<close>, taken as an exact rational), and every function that draws takes the number of
  calls made so far and returns it advanced by the number of calls it made.
\<close>

type_synonym random_source = "nat \<Rightarrow> rat"


section \<open>Rules engine\<close>

text \<open>
  A \<^verbatim>\<open>RulesResolution\<close> also carries two texts, \<^verbatim>\<open>effectSummary\<close> and
  \<^verbatim>\<open>resolutionNotes\<close>, which nothing reads; they are left out. Numbers are integers.
\<close>

record RollResult =
  d20 :: int
  modifiers :: "int list"
  total :: int
  criticalHit :: bool
  criticalMiss :: bool

record RulesResolution =
  success :: bool
  roll :: RollResult
  dc :: int

text \<open>\<^verbatim>\<open>rollD20\<close>: one draw \<^verbatim>\<open>Math.floor(Math.random() * 20) + 1\<close> plus the sum of the modifiers.\<close>

definition rollD20 :: "random_source \<Rightarrow> int list \<Rightarrow> nat \<Rightarrow> RollResult \<times> nat" where
  "rollD20 rnd mods pos =
     (let d = \<lfloor>rnd pos * 20\<rfloor> + 1;
          modifierSum = foldl (\<lambda>sum m. sum + m) 0 mods;
          t = d + modifierSum
      in (\<lparr>d20 = d, modifiers = mods, total = t,
           criticalHit = (d = 20), criticalMiss = (d = 1)\<rparr>, Suc pos))"

text \<open>
  \<^verbatim>\<open>rollDice\<close>: the loop \<^verbatim>\<open>for (let i = 0; i < count; i++) total += floor(random() * sides) + 1\<close>,
  started from \<^verbatim>\<open>total = modifier\<close>.
\<close>

function rollDice_loop ::
  "random_source \<Rightarrow> int \<Rightarrow> int \<Rightarrow> int \<Rightarrow> int \<Rightarrow> nat \<Rightarrow> int \<times> nat" where
  "rollDice_loop rnd cnt sides i tot pos =
     (if i < cnt
      then rollDice_loop rnd cnt sides (i + 1)
             (tot + (\<lfloor>rnd pos * of_int sides\<rfloor> + 1)) (Suc pos)
      else (tot, pos))"
  by pat_completeness auto
termination
  by (relation "measure (\<lambda>(rnd, cnt, sides, i, tot, pos). nat (cnt - i))") auto

declare rollDice_loop.simps [simp del]

definition rollDice :: "random_source \<Rightarrow> int \<Rightarrow> int \<Rightarrow> int \<Rightarrow> nat \<Rightarrow> int \<times> nat" where
  "rollDice rnd cnt sides modifier pos = rollDice_loop rnd cnt sides 0 modifier pos"

definition resolveAttack ::
  "random_source \<Rightarrow> int \<Rightarrow> int \<Rightarrow> int list \<Rightarrow> nat \<Rightarrow> RulesResolution \<times> nat" where
  "resolveAttack rnd attackBonus targetAC additionalModifiers pos =
     (let (r, pos') = rollD20 rnd (attackBonus # additionalModifiers) pos
      in (\<lparr>success = (total r \<ge> targetAC), roll = r, dc = targetAC\<rparr>, pos'))"

definition resolveDamage ::
  "random_source \<Rightarrow> int \<Rightarrow> int \<Rightarrow> int \<Rightarrow> bool \<Rightarrow> nat \<Rightarrow> int \<times> nat" where
  "resolveDamage rnd diceCount diceSides damageModifier isCritical pos =
     (let (damage, pos1) = rollDice rnd diceCount diceSides damageModifier pos;
          (damage', pos2) =
            (if isCritical
             then (let (extra, p) = rollDice rnd diceCount diceSides 0 pos1
                   in (damage + extra, p))
             else (damage, pos1))
      in (max 0 damage', pos2))"

datatype hp_status = healthy | wounded | disabled | dying | dead

record Condition =
  cond_name :: string
  description :: string

record StatusChange =
  target :: string
  kind :: string
  change :: Condition

record DamageOutcome =
  newHP :: int
  status :: hp_status
  statusChanges :: "StatusChange list"

definition condition_change :: "string \<Rightarrow> string \<Rightarrow> StatusChange" where
  "condition_change n d =
     \<lparr>target = ''self'', kind = ''condition'', change = \<lparr>cond_name = n, description = d\<rparr>\<rparr>"

text \<open>
  \<^verbatim>\<open>RulesEngine.applyDamage\<close>. The test \<^verbatim>\<open>newHP < maxHP / 2\<close> divides in the reals, so it is
  written over the rationals.
\<close>

definition RulesEngine_applyDamage :: "int \<Rightarrow> int \<Rightarrow> int \<Rightarrow> DamageOutcome" where
  "RulesEngine_applyDamage currentHP maxHP damage =
     (let n = max (- 10) (currentHP - damage)
      in if n \<le> - 10 then
           \<lparr>newHP = n, status = dead,
            statusChanges = [condition_change ''Dead'' ''Character is dead'']\<rparr>
         else if n < 0 then
           \<lparr>newHP = n, status = dying,
            statusChanges =
              [condition_change ''Dying'' ''Character is dying and must stabilize'']\<rparr>
         else if n = 0 then
           \<lparr>newHP = n, status = disabled,
            statusChanges =
              [condition_change ''Disabled''
                 ''Character can take only a single move or standard action'']\<rparr>
         else if rat_of_int n < rat_of_int maxHP / 2 then
           \<lparr>newHP = n, status = wounded, statusChanges = []\<rparr>
         else \<lparr>newHP = n, status = healthy, statusChanges = []\<rparr>)"

text \<open>\<^verbatim>\<open>RulesEngine.applyHealing\<close> returns the pair \<^verbatim>\<open>{newHP, overheal}\<close>.\<close>

definition RulesEngine_applyHealing :: "int \<Rightarrow> int \<Rightarrow> int \<Rightarrow> int \<times> int" where
  "RulesEngine_applyHealing currentHP maxHP healing =
     (min maxHP (currentHP + healing), max 0 ((currentHP + healing) - maxHP))"

section \<open>Combat manager: data\<close>

text \<open>
  \<^verbatim>\<open>Combatant\<close> and \<^verbatim>\<open>CombatState\<close> as the interfaces declare them. The optional
  \<^verbatim>\<open>character\<close> sheet is never read by the manager or the enemy AI and is left out; the
  field \<^verbatim>\<open>id\<close> is \<open>cid\<close>, the field \<^verbatim>\<open>hp.max\<close> is \<open>max_hp\<close> and \<^verbatim>\<open>round\<close> is \<open>round_no\<close>.
  Hit points, armour class and initiative are integers.
\<close>

record HitPoints =
  current :: int
  max_hp :: int

record Combatant =
  cid :: string
  name :: string
  initiative :: int
  hp :: HitPoints
  ac :: int
  isPlayer :: bool
  isDefeated :: bool

text \<open>
  \<^verbatim>\<open>turnIndex\<close> is only ever assigned \<^verbatim>\<open>0\<close> or \<^verbatim>\<open>(turnIndex + 1) % combatants.length\<close>: a
  natural number, or \<^verbatim>\<open>NaN\<close> once the remainder is taken modulo an empty roster.
\<close>

datatype turn_index = Idx nat | IdxNaN

text \<open>
  The combat log holds formatted strings. Each template of the source is one constructor
  here, carrying the values the template interpolates, in the template's order.
\<close>

datatype log_entry =
    CombatBegins
  | InitiativeOrder "string list"
  | RoundHeader int
  | AttackHit string string int int int
  | AttackMiss string string
  | DefeatedEntry string
  | TakesDamage string int string int int
  | Healed string int string int int
  | AllPlayersDefeated
  | AllEnemiesDefeated
  | CombatEnded

record CombatState =
  round_no :: int
  turnIndex :: turn_index
  combatants :: "Combatant list"
  combatLog :: "log_entry list"
  isActive :: bool

record DamageRoll =
  dice :: int
  sides :: int
  bonus :: int

record AttackResult =
  succeeded :: bool
  damage_dealt :: "int option"
  narrative :: string

record TurnResult =
  newRound :: bool
  currentCombatant :: "Combatant option"

datatype side = players | enemies

record EndCheck =
  ended :: bool
  winners :: "side option"
  reason :: "string option"

section \<open>Combat manager: operations\<close>

text \<open>The state the constructor installs.\<close>

definition initial_state :: CombatState where
  "initial_state =
     \<lparr>round_no = 0, turnIndex = Idx 0, combatants = [], combatLog = [], isActive = False\<rparr>"

definition addToLog :: "log_entry \<Rightarrow> CombatState \<Rightarrow> CombatState" where
  "addToLog entry s = s\<lparr>combatLog := combatLog s @ [entry]\<rparr>"

text \<open>
  \<^verbatim>\<open>Array.prototype.sort\<close> with a comparator is a builtin of the language; the language
  standard makes it stable. It is modelled by insertion sort: \<open>x\<close> goes in front of the first
  \<open>y\<close> that the comparator does not put before it.
\<close>

fun insert_by :: "('a \<Rightarrow> 'a \<Rightarrow> int) \<Rightarrow> 'a \<Rightarrow> 'a list \<Rightarrow> 'a list" where
  "insert_by cmp x [] = [x]"
| "insert_by cmp x (y # ys) = (if cmp x y \<le> 0 then x # y # ys else y # insert_by cmp x ys)"

definition js_sort :: "('a \<Rightarrow> 'a \<Rightarrow> int) \<Rightarrow> 'a list \<Rightarrow> 'a list" where
  "js_sort cmp xs = foldr (insert_by cmp) xs []"

definition startCombat :: "Combatant list \<Rightarrow> CombatState" where
  "startCombat cs =
     (let sortedCombatants = js_sort (\<lambda>a b. initiative b - initiative a) cs
      in addToLog (InitiativeOrder (map name sortedCombatants))
           \<lparr>round_no = 1, turnIndex = Idx 0, combatants = sortedCombatants,
            combatLog = [CombatBegins], isActive = True\<rparr>)"

text \<open>
  The public methods take the state and return their result with the state they leave.
  \<^verbatim>\<open>combatants[turnIndex]\<close> outside the array is \<^verbatim>\<open>undefined\<close>, which is \<open>None\<close> like \<^verbatim>\<open>null\<close>.
\<close>

definition getCurrentCombatant :: "CombatState \<Rightarrow> Combatant option \<times> CombatState" where
  "getCurrentCombatant s =
     (if \<not> isActive s \<or> length (combatants s) = 0 then (None, s)
      else (case turnIndex s of
              Idx t \<Rightarrow> if t < length (combatants s) then Some (combatants s ! t) else None
            | IdxNaN \<Rightarrow> None, s))"


definition getCombatant :: "string \<Rightarrow> CombatState \<Rightarrow> Combatant option \<times> CombatState" where
  "getCombatant i s = (find (\<lambda>c. cid c = i) (combatants s), s)"

text \<open>
  \<^verbatim>\<open>getCombatant\<close> hands out the object itself and the callers assign to its fields. In the
  model the object is the first roster entry with that id, and \<open>mutate\<close> rewrites that entry
  (the entries of a roster are distinct objects).
\<close>

fun mutate_first :: "string \<Rightarrow> (Combatant \<Rightarrow> Combatant) \<Rightarrow> Combatant list \<Rightarrow> Combatant list" where
  "mutate_first i f [] = []"
| "mutate_first i f (c # cs) = (if cid c = i then f c # cs else c # mutate_first i f cs)"

definition mutate :: "string \<Rightarrow> (Combatant \<Rightarrow> Combatant) \<Rightarrow> CombatState \<Rightarrow> CombatState" where
  "mutate i f s = s\<lparr>combatants := mutate_first i f (combatants s)\<rparr>"

definition set_current :: "int \<Rightarrow> Combatant \<Rightarrow> Combatant" where
  "set_current v c = c\<lparr>hp := (hp c)\<lparr>current := v\<rparr>\<rparr>"

definition set_defeated :: "Combatant \<Rightarrow> Combatant" where
  "set_defeated c = c\<lparr>isDefeated := True\<rparr>"

text \<open>
  \<^verbatim>\<open>processAttack\<close>. The narrative comes from the DM agent, whose
  \<^verbatim>\<open>generateCombatNarrative\<close> always resolves to a string (it catches its own failures);
  \<open>narrate actor action target success damage\<close> stands for that string.
\<close>

type_synonym narrator = "string \<Rightarrow> string \<Rightarrow> string \<Rightarrow> bool \<Rightarrow> int option \<Rightarrow> string"

definition processAttack ::
  "random_source \<Rightarrow> narrator \<Rightarrow> string \<Rightarrow> string \<Rightarrow> int \<Rightarrow> DamageRoll \<Rightarrow> nat \<Rightarrow> CombatState
     \<Rightarrow> AttackResult \<times> CombatState \<times> nat" where
  "processAttack rnd narrate actorId targetId attackBonus damageRoll pos s =
     (case (fst (getCombatant actorId s), fst (getCombatant targetId s)) of
        (Some actor, Some tgt) \<Rightarrow>
          if isDefeated tgt then
            (\<lparr>succeeded = False, damage_dealt = None,
              narrative = name tgt @ '' is already defeated!''\<rparr>, s, pos)
          else
            (let (attackResult, pos1) = resolveAttack rnd attackBonus (ac tgt) [] pos
             in if success attackResult then
                  (let (damage, pos2) =
                         resolveDamage rnd (dice damageRoll) (sides damageRoll)
                           (bonus damageRoll) False pos1;
                       v = max 0 (current (hp tgt) - damage);
                       s1 = mutate targetId (set_current v) s;
                       s2 = (if v = 0 then mutate targetId set_defeated s1 else s1);
                       text = narrate (name actor) ''melee attack'' (name tgt) True (Some damage);
                       s3 = addToLog (AttackHit (name actor) (name tgt) damage v (max_hp (hp tgt))) s2;
                       s4 = (if v = 0 then addToLog (DefeatedEntry (name tgt)) s3 else s3)
                   in (\<lparr>succeeded = True, damage_dealt = Some damage, narrative = text\<rparr>,
                       s4, pos2))
                else
                  (let text = narrate (name actor) ''melee attack'' (name tgt) False None;
                       s1 = addToLog (AttackMiss (name actor) (name tgt)) s
                   in (\<lparr>succeeded = False, damage_dealt = None, narrative = text\<rparr>, s1, pos1)))
      | _ \<Rightarrow>
          (\<lparr>succeeded = False, damage_dealt = None, narrative = ''Invalid combatants''\<rparr>, s, pos))"

definition CombatManager_applyDamage :: "string \<Rightarrow> int \<Rightarrow> string \<Rightarrow> CombatState \<Rightarrow> CombatState" where
  "CombatManager_applyDamage targetId damage source s =
     (case fst (getCombatant targetId s) of
        None \<Rightarrow> s
      | Some tgt \<Rightarrow>
          if isDefeated tgt then s
          else
            (let v = max 0 (current (hp tgt) - damage);
                 s1 = mutate targetId (set_current v) s;
                 s2 = (if v = 0
                       then addToLog (DefeatedEntry (name tgt)) (mutate targetId set_defeated s1)
                       else s1)
             in addToLog (TakesDamage (name tgt) damage source v (max_hp (hp tgt))) s2))"

definition CombatManager_applyHealing :: "string \<Rightarrow> int \<Rightarrow> string \<Rightarrow> CombatState \<Rightarrow> CombatState" where
  "CombatManager_applyHealing targetId healing source s =
     (case fst (getCombatant targetId s) of
        None \<Rightarrow> s
      | Some tgt \<Rightarrow>
          if isDefeated tgt then s
          else
            (let oldHP = current (hp tgt);
                 v = min (max_hp (hp tgt)) (current (hp tgt) + healing);
                 s1 = mutate targetId (set_current v) s;
                 actualHealing = v - oldHP
             in addToLog (Healed (name tgt) actualHealing source v (max_hp (hp tgt))) s1))"

text \<open>
  \<^verbatim>\<open>nextTurn\<close>. \<open>advance\<close> is \<^verbatim>\<open>(turnIndex + 1) % combatants.length\<close>; the remainder modulo
  zero is \<^verbatim>\<open>NaN\<close>. The \<^verbatim>\<open>do ... while (attempts < maxAttempts)\<close> loop is \<open>nextTurn_loop\<close>,
  entered with the number of attempts made so far.
\<close>

definition advance :: "turn_index \<Rightarrow> nat \<Rightarrow> turn_index" where
  "advance ti n =
     (case ti of
        Idx t \<Rightarrow> if n = 0 then IdxNaN else Idx ((t + 1) mod n)
      | IdxNaN \<Rightarrow> IdxNaN)"

function nextTurn_loop :: "nat \<Rightarrow> nat \<Rightarrow> CombatState \<Rightarrow> TurnResult \<times> CombatState" where
  "nextTurn_loop attempts maxAttempts s =
     (let s1 = s\<lparr>turnIndex := advance (turnIndex s) (length (combatants s))\<rparr>;
          attempts' = attempts + 1
      in if turnIndex s1 = Idx 0 then
           (let s2 = s1\<lparr>round_no := round_no s1 + 1\<rparr>;
                s3 = addToLog (RoundHeader (round_no s2)) s2
            in (\<lparr>newRound = True, currentCombatant = fst (getCurrentCombatant s3)\<rparr>, s3))
         else
           (case fst (getCurrentCombatant s1) of
              Some cur \<Rightarrow>
                if \<not> isDefeated cur then (\<lparr>newRound = False, currentCombatant = Some cur\<rparr>, s1)
                else if attempts' < maxAttempts then nextTurn_loop attempts' maxAttempts s1
                else (\<lparr>newRound = False, currentCombatant = None\<rparr>, s1)
            | None \<Rightarrow>
                if attempts' < maxAttempts then nextTurn_loop attempts' maxAttempts s1
                else (\<lparr>newRound = False, currentCombatant = None\<rparr>, s1)))"
  by pat_completeness auto
termination
  by (relation "measure (\<lambda>(attempts, maxAttempts, s). maxAttempts - attempts)") auto

declare nextTurn_loop.simps [simp del]

definition nextTurn :: "CombatState \<Rightarrow> TurnResult \<times> CombatState" where
  "nextTurn s =
     (if \<not> isActive s then (\<lparr>newRound = False, currentCombatant = None\<rparr>, s)
      else nextTurn_loop 0 (length (combatants s)) s)"

definition checkCombatEnd :: "CombatState \<Rightarrow> EndCheck \<times> CombatState" where
  "checkCombatEnd s =
     (let activePlayers = filter (\<lambda>c. isPlayer c \<and> \<not> isDefeated c) (combatants s);
          activeEnemies = filter (\<lambda>c. \<not> isPlayer c \<and> \<not> isDefeated c) (combatants s)
      in if length activePlayers = 0 then
           (\<lparr>ended = True, winners = Some enemies, reason = Some ''All players defeated''\<rparr>,
            addToLog AllPlayersDefeated (s\<lparr>isActive := False\<rparr>))
         else if length activeEnemies = 0 then
           (\<lparr>ended = True, winners = Some players, reason = Some ''All enemies defeated''\<rparr>,
            addToLog AllEnemiesDefeated (s\<lparr>isActive := False\<rparr>))
         else (\<lparr>ended = False, winners = None, reason = None\<rparr>, s))"

definition endCombat :: "CombatState \<Rightarrow> CombatState" where
  "endCombat s = addToLog CombatEnded (s\<lparr>isActive := False\<rparr>)"

section \<open>Enemy AI\<close>

text \<open>
  The AI compares the quotients \<^verbatim>\<open>hp.current / hp.max\<close>. Division of numbers never fails
  in the language: a zero divisor gives an infinity or \<^verbatim>\<open>NaN\<close>, and every comparison with
  \<^verbatim>\<open>NaN\<close> is false. Finite quotients are exact rationals.
\<close>

datatype js_number = Num rat | PosInf | NegInf | NaN

definition js_div :: "int \<Rightarrow> int \<Rightarrow> js_number" where
  "js_div a b =
     (if b \<noteq> 0 then Num (rat_of_int a / rat_of_int b)
      else if 0 < a then PosInf
      else if a < 0 then NegInf
      else NaN)"

fun js_lt :: "js_number \<Rightarrow> js_number \<Rightarrow> bool" where
  "js_lt (Num a) (Num b) = (a < b)"
| "js_lt (Num a) PosInf = True"
| "js_lt NegInf (Num b) = True"
| "js_lt NegInf PosInf = True"
| "js_lt _ _ = False"

datatype ai_action = attack | defend | pass

record AIDecision =
  action :: ai_action
  targetId :: "string option"
  reasoning :: string

definition hp_percent :: "Combatant \<Rightarrow> js_number" where
  "hp_percent c = js_div (current (hp c)) (max_hp (hp c))"

text \<open>The callback of \<^verbatim>\<open>playerTargets.reduce\<close>.\<close>

definition weaker :: "Combatant \<Rightarrow> Combatant \<Rightarrow> Combatant" where
  "weaker weakest cur =
     (let weakestPercent = hp_percent weakest;
          currentPercent = hp_percent cur
      in if js_lt currentPercent weakestPercent then cur else weakest)"

text \<open>
  \<^verbatim>\<open>decideAction\<close>. \<^verbatim>\<open>reduce\<close> without an initial value starts from the first element. The
  conjunction \<^verbatim>\<open>enemyHPPercent < 0.25 && Math.random() < 0.3\<close> draws only when its left
  side holds.
\<close>

definition decideAction ::
  "random_source \<Rightarrow> Combatant \<Rightarrow> Combatant list \<Rightarrow> nat \<Rightarrow> AIDecision \<times> nat" where
  "decideAction rnd enemy allCombatants pos =
     (case filter (\<lambda>c. isPlayer c \<and> \<not> isDefeated c) allCombatants of
        [] \<Rightarrow> (\<lparr>action = pass, targetId = None, reasoning = ''No valid targets''\<rparr>, pos)
      | t # ts \<Rightarrow>
          (let weakestPlayer = foldl weaker t ts;
               enemyHPPercent = hp_percent enemy;
               attackDecision =
                 \<lparr>action = attack, targetId = Some (cid weakestPlayer),
                  reasoning = name enemy @ '' attacks '' @ name weakestPlayer
                              @ '' (weakest target)''\<rparr>
           in if js_lt enemyHPPercent (Num (1 / 4)) then
                (if rnd pos < 3 / 10 then
                   (\<lparr>action = defend, targetId = None,
                     reasoning = name enemy @ '' is low on HP and takes defensive stance''\<rparr>,
                    Suc pos)
                 else (attackDecision, Suc pos))
              else (attackDecision, pos)))"

section \<open>Notions used by the properties\<close>


text \<open>The states a manager can be in: the constructor's state and whatever its methods leave.\<close>

inductive reachable :: "CombatState \<Rightarrow> bool" where
  r_init: "reachable initial_state"
| r_start: "reachable (startCombat cs)"
| r_attack: "reachable s \<Longrightarrow> reachable (fst (snd (processAttack rnd narrate a t b d pos s)))"
| r_damage: "reachable s \<Longrightarrow> reachable (CombatManager_applyDamage t dmg src s)"
| r_healing: "reachable s \<Longrightarrow> reachable (CombatManager_applyHealing t h src s)"
| r_next: "reachable s \<Longrightarrow> reachable (snd (nextTurn s))"
| r_check: "reachable s \<Longrightarrow> reachable (snd (checkCombatEnd s))"
| r_end: "reachable s \<Longrightarrow> reachable (endCombat s)"

text \<open>\<open>k\<close> calls of \<^verbatim>\<open>nextTurn\<close> in a row, with the results in order.\<close>

fun nextTurns :: "nat \<Rightarrow> CombatState \<Rightarrow> TurnResult list \<times> CombatState" where
  "nextTurns 0 s = ([], s)"
| "nextTurns (Suc k) s =
     (let (r, s1) = nextTurn s; (rs, s2) = nextTurns k s1 in (r # rs, s2))"

text \<open>The hit points of every combatant lie between zero and the maximum.\<close>

definition hp_in_range :: "Combatant list \<Rightarrow> bool" where
  "hp_in_range cs = list_all (\<lambda>c. 0 \<le> current (hp c) \<and> current (hp c) \<le> max_hp (hp c)) cs"

text \<open>Every defeated entry of the first roster is the same entry, untouched, in the second.\<close>

definition defeated_frozen :: "Combatant list \<Rightarrow> Combatant list \<Rightarrow> bool" where
  "defeated_frozen cs cs' =
     (length cs' = length cs
      \<and> list_all (\<lambda>(c, c'). isDefeated c \<longrightarrow> c' = c) (zip cs cs'))"

text \<open>
  The turn order as the specification words it, to compare the loop of \<^verbatim>\<open>nextTurn\<close>
  with: the next turn belongs to the first slot after the current one whose combatant is
  not defeated; when the order has no such slot left, the turn index has completed its
  cycle, wraps to slot 0, and the round is counted. \<open>spec_turn\<close> takes the round and the
  slot to the round and the slot of the next turn.
\<close>

definition spec_next_slot :: "Combatant list \<Rightarrow> nat \<Rightarrow> nat option" where
  "spec_next_slot cs t = find (\<lambda>j. \<not> isDefeated (cs ! j)) [t + 1 ..< length cs]"

definition spec_turn :: "Combatant list \<Rightarrow> int \<times> nat \<Rightarrow> int \<times> nat" where
  "spec_turn cs = (\<lambda>(r, t). case spec_next_slot cs t of Some j \<Rightarrow> (r, j) | None \<Rightarrow> (r + 1, 0))"

text \<open>The turn index points into the roster, unless the roster is empty.\<close>

definition index_in_range :: "CombatState \<Rightarrow> bool" where
  "index_in_range s =
     (case turnIndex s of
        Idx t \<Rightarrow> t < length (combatants s) \<or> length (combatants s) = 0
      | IdxNaN \<Rightarrow> length (combatants s) = 0)"

text \<open>The quotient \<^verbatim>\<open>hp.current / hp.max\<close> of a combatant whose maximum is not zero.\<close>

definition hp_ratio :: "Combatant \<Rightarrow> rat" where
  "hp_ratio c = rat_of_int (current (hp c)) / rat_of_int (max_hp (hp c))"

definition live_player :: "Combatant \<Rightarrow> bool" where
  "live_player c = (isPlayer c \<and> \<not> isDefeated c)"

section \<open>Example combatants\<close>

definition goblin :: Combatant where
  "goblin = \<lparr>cid = ''enemy1'', name = ''Goblin 1'', initiative = 9,
             hp = \<lparr>current = 2, max_hp = 10\<rparr>, ac = 15, isPlayer = False, isDefeated = False\<rparr>"

definition fighter :: Combatant where
  "fighter = \<lparr>cid = ''p1'', name = ''Fighter'', initiative = 18,
              hp = \<lparr>current = 5, max_hp = 10\<rparr>, ac = 16, isPlayer = True, isDefeated = False\<rparr>"

definition wizard :: Combatant where
  "wizard = \<lparr>cid = ''p2'', name = ''Wizard'', initiative = 12,
             hp = \<lparr>current = 3, max_hp = 10\<rparr>, ac = 12, isPlayer = True, isDefeated = False\<rparr>"

text \<open>A combat of the three, started from an unsorted roster.\<close>

definition skirmish :: CombatState where
  "skirmish = startCombat [goblin, fighter, wizard]"

text \<open>
  Two turns pass, then the goblin attacks the fighter with every draw at \<open>19/20\<close>: the d20
  shows 20, the d6 shows 6, and the fighter falls. In \<open>rout\<close> the wizard has fallen too.
\<close>

definition high_rolls :: random_source where
  "high_rolls = (\<lambda>_. 19 / 20)"

definition no_narrative :: narrator where
  "no_narrative = (\<lambda>actor act tgt hit dmg. [])"

definition ambush :: CombatState where
  "ambush =
     fst (snd (processAttack high_rolls no_narrative ''enemy1'' ''p1'' 2
                 \<lparr>dice = 1, sides = 6, bonus = 0\<rparr> 0 (snd (nextTurns 2 skirmish))))"

definition rout :: CombatState where
  "rout = CombatManager_applyDamage ''p2'' 3 ''fall'' ambush"

section \<open>Properties of the rules engine\<close>

text \<open>
  C5. \<^verbatim>\<open>RulesEngine.applyDamage\<close> returns \<open>max (-10) (currentHP - damage)\<close>; the status is
  dead exactly when the new value is at most \<open>-10\<close>, dying when it is negative above \<open>-10\<close>,
  disabled at zero, wounded when positive and below half of the maximum, healthy otherwise;
  more damage never leaves more hit points; \<open>applyDamage(0,10,0)\<close> is disabled and
  \<open>applyDamage(-9,10,1)\<close> is \<open>-10\<close> and dead.
\<close>

theorem applyDamage_status:
  fixes currentHP maxHP damage damage' :: int
  assumes "damage \<le> damage'"
  shows "newHP (RulesEngine_applyDamage currentHP maxHP damage) = max (- 10) (currentHP - damage)
       \<and> (status (RulesEngine_applyDamage currentHP maxHP damage) = dead
            \<longleftrightarrow> max (- 10) (currentHP - damage) \<le> - 10)
       \<and> (status (RulesEngine_applyDamage currentHP maxHP damage) = dying
            \<longleftrightarrow> - 10 < max (- 10) (currentHP - damage) \<and> max (- 10) (currentHP - damage) < 0)
       \<and> (status (RulesEngine_applyDamage currentHP maxHP damage) = disabled
            \<longleftrightarrow> max (- 10) (currentHP - damage) = 0)
       \<and> (status (RulesEngine_applyDamage currentHP maxHP damage) = wounded
            \<longleftrightarrow> 0 < max (- 10) (currentHP - damage)
                \<and> 2 * max (- 10) (currentHP - damage) < maxHP)
       \<and> (status (RulesEngine_applyDamage currentHP maxHP damage) = healthy
            \<longleftrightarrow> 0 < max (- 10) (currentHP - damage)
                \<and> maxHP \<le> 2 * max (- 10) (currentHP - damage))
       \<and> newHP (RulesEngine_applyDamage currentHP maxHP damage')
            \<le> newHP (RulesEngine_applyDamage currentHP maxHP damage)
       \<and> status (RulesEngine_applyDamage 0 10 0) = disabled
       \<and> newHP (RulesEngine_applyDamage (- 9) 10 1) = - 10
       \<and> status (RulesEngine_applyDamage (- 9) 10 1) = dead"
proof -
  have half: "rat_of_int n < rat_of_int maxHP / 2 \<longleftrightarrow> 2 * n < maxHP" for n
  proof -
    have "rat_of_int n < rat_of_int maxHP / 2 \<longleftrightarrow> rat_of_int (2 * n) < rat_of_int maxHP"
      by (simp add: field_simps)
    then show ?thesis by (simp only: of_int_less_iff)
  qed
  show ?thesis
    using assms unfolding RulesEngine_applyDamage_def Let_def
    by (simp add: half)
qed

theorem applyDamage_status_witness:
  "(2::int) \<le> 5
   \<and> newHP (RulesEngine_applyDamage 7 10 2) = 5
   \<and> status (RulesEngine_applyDamage 7 10 2) = healthy
   \<and> newHP (RulesEngine_applyDamage 7 10 5) \<le> newHP (RulesEngine_applyDamage 7 10 2)"
  using applyDamage_status [of 2 5 7 10] by simp






section \<open>Properties of the initial order\<close>

lemma mset_insert_by: "mset (insert_by cmp x xs) = add_mset x (mset xs)"
  by (induction xs) auto

lemma mset_js_sort: "mset (js_sort cmp xs) = mset xs"
  unfolding js_sort_def by (induction xs) (auto simp: mset_insert_by)

lemma set_insert_by: "set (insert_by cmp x xs) = insert x (set xs)"
  using mset_insert_by [of cmp x xs] by (metis set_mset_add_mset_insert set_mset_mset)

lemma sorted_insert_by_initiative:
  "sorted_wrt (\<lambda>a b. initiative b \<le> initiative a) xs \<Longrightarrow>
   sorted_wrt (\<lambda>a b. initiative b \<le> initiative a)
     (insert_by (\<lambda>a b. initiative b - initiative a) x xs)"
proof (induction xs)
  case Nil
  then show ?case by simp
next
  case (Cons y ys)
  show ?case
  proof (cases "initiative y \<le> initiative x")
    case True
    then show ?thesis using Cons.prems by auto
  next
    case False
    then show ?thesis using Cons by (auto simp: set_insert_by)
  qed
qed

lemma sorted_js_sort_initiative:
  "sorted_wrt (\<lambda>a b. initiative b \<le> initiative a)
     (js_sort (\<lambda>a b. initiative b - initiative a) xs)"
  unfolding js_sort_def by (induction xs) (simp_all add: sorted_insert_by_initiative)

lemma filter_insert_by_initiative:
  "filter (\<lambda>c. initiative c = k) (insert_by (\<lambda>a b. initiative b - initiative a) x xs) =
     (if initiative x = k then x # filter (\<lambda>c. initiative c = k) xs
      else filter (\<lambda>c. initiative c = k) xs)"
  by (induction xs) auto

lemma stable_js_sort_initiative:
  "filter (\<lambda>c. initiative c = k) (js_sort (\<lambda>a b. initiative b - initiative a) xs) =
     filter (\<lambda>c. initiative c = k) xs"
  unfolding js_sort_def by (induction xs) (simp_all add: filter_insert_by_initiative)

text \<open>
  C4. \<^verbatim>\<open>startCombat\<close> orders the roster by initiative, highest first; combatants of equal
  initiative keep their input order; the roster is a rearrangement of the input; the round
  is 1, the turn index 0, the combat active, and the log is the combat-begins entry followed
  by the initiative order.
\<close>

theorem startCombat_sorted_stable:
  "sorted_wrt (\<lambda>a b. initiative b \<le> initiative a) (combatants (startCombat cs))
   \<and> filter (\<lambda>c. initiative c = k) (combatants (startCombat cs))
       = filter (\<lambda>c. initiative c = k) cs
   \<and> mset (combatants (startCombat cs)) = mset cs
   \<and> round_no (startCombat cs) = 1
   \<and> turnIndex (startCombat cs) = Idx 0
   \<and> isActive (startCombat cs)
   \<and> combatLog (startCombat cs)
       = [CombatBegins, InitiativeOrder (map name (combatants (startCombat cs)))]"
  by (simp add: startCombat_def addToLog_def Let_def sorted_js_sort_initiative
        stable_js_sort_initiative mset_js_sort)

lemma startCombat_example:
  "map name (combatants (startCombat
     [\<lparr>cid = ''a'', name = ''A'', initiative = 10, hp = \<lparr>current = 5, max_hp = 5\<rparr>, ac = 10,
       isPlayer = True, isDefeated = False\<rparr>,
      \<lparr>cid = ''b'', name = ''B'', initiative = 12, hp = \<lparr>current = 5, max_hp = 5\<rparr>, ac = 10,
       isPlayer = False, isDefeated = False\<rparr>,
      \<lparr>cid = ''c'', name = ''C'', initiative = 10, hp = \<lparr>current = 5, max_hp = 5\<rparr>, ac = 10,
       isPlayer = True, isDefeated = False\<rparr>])) = [''B'', ''A'', ''C'']"
  by (simp add: startCombat_def addToLog_def js_sort_def)

section \<open>Properties of the enemy AI\<close>

lemma hp_percent_Num: "max_hp (hp c) \<noteq> 0 \<Longrightarrow> hp_percent c = Num (hp_ratio c)"
  by (simp add: hp_percent_def js_div_def hp_ratio_def)

lemma weaker_ratio:
  assumes "max_hp (hp w) \<noteq> 0" "max_hp (hp c) \<noteq> 0"
  shows "weaker w c = (if hp_ratio c < hp_ratio w then c else w)"
  using assms by (simp add: weaker_def hp_percent_Num)

lemma foldl_weaker_first_min:
  assumes "\<forall>c \<in> set (t # ts). max_hp (hp c) \<noteq> 0"
  shows "\<exists>pre post. t # ts = pre @ foldl weaker t ts # post
           \<and> (\<forall>c \<in> set pre. hp_ratio (foldl weaker t ts) < hp_ratio c)
           \<and> (\<forall>c \<in> set post. hp_ratio (foldl weaker t ts) \<le> hp_ratio c)"
  using assms
proof (induction ts rule: rev_induct)
  case Nil
  have "[t] = [] @ t # []" by simp
  then show ?case by fastforce
next
  case (snoc x xs)
  let ?w = "foldl weaker t xs"
  from snoc obtain pre post where split: "t # xs = pre @ ?w # post"
    and before: "\<forall>c \<in> set pre. hp_ratio ?w < hp_ratio c"
    and after: "\<forall>c \<in> set post. hp_ratio ?w \<le> hp_ratio c"
    by auto
  have "?w \<in> set (t # xs)" using split by (metis in_set_conv_decomp)
  then have wmax: "max_hp (hp ?w) \<noteq> 0" using snoc.prems by auto
  have xmax: "max_hp (hp x) \<noteq> 0" using snoc.prems by auto
  have step: "foldl weaker t (xs @ [x]) = (if hp_ratio x < hp_ratio ?w then x else ?w)"
    by (simp add: weaker_ratio [OF wmax xmax])
  show ?case
  proof (cases "hp_ratio x < hp_ratio ?w")
    case True
    have all: "\<forall>c \<in> set (t # xs). hp_ratio x < hp_ratio c"
    proof
      fix c assume "c \<in> set (t # xs)"
      then have "c \<in> set pre \<or> c = ?w \<or> c \<in> set post" unfolding split by auto
      then have "hp_ratio ?w \<le> hp_ratio c" using before after by fastforce
      then show "hp_ratio x < hp_ratio c" using True by simp
    qed
    have "t # xs @ [x] = (t # xs) @ foldl weaker t (xs @ [x]) # []"
      using True step by simp
    moreover have "\<forall>c \<in> set (t # xs). hp_ratio (foldl weaker t (xs @ [x])) < hp_ratio c"
      using all True step by simp
    ultimately show ?thesis by (metis empty_iff list.set(1))
  next
    case False
    then have keep: "foldl weaker t (xs @ [x]) = ?w" using step by simp
    have "t # xs @ [x] = pre @ ?w # (post @ [x])" using split by simp
    moreover have "\<forall>c \<in> set (post @ [x]). hp_ratio ?w \<le> hp_ratio c"
      using after False by auto
    ultimately show ?thesis unfolding keep using before by blast
  qed
qed

text \<open>
  C7. \<^verbatim>\<open>decideAction\<close> passes when no live player is among the combatants. Otherwise the
  target is the live player of least \<open>hp.current / hp.max\<close>, the first such in the order of
  the list; the enemy defends when its own ratio is below one quarter and the draw is below
  three tenths, and attacks the target in every other case.
\<close>

theorem decideAction_policy:
  assumes "\<forall>c \<in> set allCombatants. live_player c \<longrightarrow> 0 < max_hp (hp c)"
    and "0 < max_hp (hp enemy)"
  shows "(filter live_player allCombatants = [] \<longrightarrow>
            action (fst (decideAction rnd enemy allCombatants pos)) = pass
            \<and> targetId (fst (decideAction rnd enemy allCombatants pos)) = None)
       \<and> (filter live_player allCombatants \<noteq> [] \<longrightarrow>
            (\<exists>pre w post.
               filter live_player allCombatants = pre @ w # post
               \<and> (\<forall>c \<in> set pre. hp_ratio w < hp_ratio c)
               \<and> (\<forall>c \<in> set post. hp_ratio w \<le> hp_ratio c)
               \<and> (if hp_ratio enemy < 1 / 4 \<and> rnd pos < 3 / 10
                   then action (fst (decideAction rnd enemy allCombatants pos)) = defend
                        \<and> targetId (fst (decideAction rnd enemy allCombatants pos)) = None
                   else action (fst (decideAction rnd enemy allCombatants pos)) = attack
                        \<and> targetId (fst (decideAction rnd enemy allCombatants pos))
                            = Some (cid w))))"
proof -
  have live: "filter (\<lambda>c. isPlayer c \<and> \<not> isDefeated c) allCombatants
                = filter live_player allCombatants"
    by (rule filter_cong) (simp_all add: live_player_def)
  have self: "hp_percent enemy = Num (hp_ratio enemy)"
    using assms(2) by (simp add: hp_percent_Num)
  show ?thesis
  proof (cases "filter live_player allCombatants")
    case Nil
    then show ?thesis by (simp add: decideAction_def live)
  next
    case (Cons t ts)
    have "\<forall>c \<in> set (filter live_player allCombatants). max_hp (hp c) \<noteq> 0"
      using assms(1) by auto
    then have nz: "\<forall>c \<in> set (t # ts). max_hp (hp c) \<noteq> 0" unfolding Cons .
    obtain pre post where split: "t # ts = pre @ foldl weaker t ts # post"
      and before: "\<forall>c \<in> set pre. hp_ratio (foldl weaker t ts) < hp_ratio c"
      and after: "\<forall>c \<in> set post. hp_ratio (foldl weaker t ts) \<le> hp_ratio c"
      using foldl_weaker_first_min [OF nz] by blast
    have dec: "(if hp_ratio enemy < 1 / 4 \<and> rnd pos < 3 / 10
                then action (fst (decideAction rnd enemy allCombatants pos)) = defend
                     \<and> targetId (fst (decideAction rnd enemy allCombatants pos)) = None
                else action (fst (decideAction rnd enemy allCombatants pos)) = attack
                     \<and> targetId (fst (decideAction rnd enemy allCombatants pos))
                         = Some (cid (foldl weaker t ts)))"
      by (simp add: decideAction_def live Cons self Let_def)
    show ?thesis
      unfolding Cons using split before after dec by blast
  qed
qed

theorem decideAction_policy_witness:
  "list_all (\<lambda>c. 0 < max_hp (hp c)) (filter live_player [fighter, wizard, goblin])
   \<and> 0 < max_hp (hp goblin)
   \<and> filter live_player [fighter, wizard, goblin] = [fighter, wizard]
   \<and> action (fst (decideAction (\<lambda>_. 1 / 10) goblin [fighter, wizard, goblin] 0)) = defend
   \<and> action (fst (decideAction (\<lambda>_. 1 / 2) goblin [fighter, wizard, goblin] 0)) = attack
   \<and> targetId (fst (decideAction (\<lambda>_. 1 / 2) goblin [fighter, wizard, goblin] 0)) = Some ''p2''"
proof -
  have h: "\<forall>c \<in> set [fighter, wizard, goblin]. live_player c \<longrightarrow> 0 < max_hp (hp c)"
    "0 < max_hp (hp goblin)"
    by (simp_all add: goblin_def fighter_def wizard_def)
  have live: "filter live_player [fighter, wizard, goblin] = [fighter, wizard]"
    by (simp add: live_player_def goblin_def fighter_def wizard_def)
  have r: "hp_ratio goblin = 1 / 5" "hp_ratio fighter = 1 / 2" "hp_ratio wizard = 3 / 10"
    by (simp_all add: hp_ratio_def goblin_def fighter_def wizard_def)
  note t1 = decideAction_policy [OF h, of "\<lambda>_. 1 / 10" 0, unfolded live]
  note t2 = decideAction_policy [OF h, of "\<lambda>_. 1 / 2" 0, unfolded live]
  have d1: "action (fst (decideAction (\<lambda>_. 1 / 10) goblin [fighter, wizard, goblin] 0)) = defend"
    using t1 by (auto simp: r)
  from t2 obtain pre w post where s: "[fighter, wizard] = pre @ w # post"
    and b: "\<forall>c \<in> set pre. hp_ratio w < hp_ratio c"
    and a: "\<forall>c \<in> set post. hp_ratio w \<le> hp_ratio c"
    and d: "action (fst (decideAction (\<lambda>_. 1 / 2) goblin [fighter, wizard, goblin] 0)) = attack"
       "targetId (fst (decideAction (\<lambda>_. 1 / 2) goblin [fighter, wizard, goblin] 0)) = Some (cid w)"
    by (auto simp: r)
  have "w = wizard"
    using s a b by (auto simp: Cons_eq_append_conv r)
  moreover have "list_all (\<lambda>c. 0 < max_hp (hp c)) (filter live_player [fighter, wizard, goblin])"
    unfolding live by (simp add: fighter_def wizard_def)
  ultimately show ?thesis using h live d1 d by (simp add: wizard_def)
qed

section \<open>Properties of the combat manager\<close>

subsection \<open>Frame lemmas\<close>

lemma addToLog_fields:
  "round_no (addToLog e s) = round_no s"
  "turnIndex (addToLog e s) = turnIndex s"
  "combatants (addToLog e s) = combatants s"
  "isActive (addToLog e s) = isActive s"
  "combatLog (addToLog e s) = combatLog s @ [e]"
  by (simp_all add: addToLog_def)

lemma mutate_fields:
  "round_no (mutate i f s) = round_no s"
  "turnIndex (mutate i f s) = turnIndex s"
  "combatants (mutate i f s) = mutate_first i f (combatants s)"
  "isActive (mutate i f s) = isActive s"
  "combatLog (mutate i f s) = combatLog s"
  by (simp_all add: mutate_def)

lemma getCombatant_find: "fst (getCombatant i s) = find (\<lambda>c. cid c = i) (combatants s)"
  by (simp add: getCombatant_def)

lemma mutate_first_split:
  assumes "find (\<lambda>c. cid c = i) cs = Some tgt"
  shows "\<exists>pre post. cs = pre @ tgt # post \<and> mutate_first i f cs = pre @ f tgt # post"
  using assms
proof (induction cs)
  case Nil
  then show ?case by simp
next
  case (Cons c cs)
  show ?case
  proof (cases "cid c = i")
    case True
    then have "c = tgt" using Cons.prems by simp
    then have "c # cs = [] @ tgt # cs \<and> mutate_first i f (c # cs) = [] @ f tgt # cs"
      using True by simp
    then show ?thesis by blast
  next
    case False
    then have "find (\<lambda>c. cid c = i) cs = Some tgt" using Cons.prems by simp
    then obtain pre post where "cs = pre @ tgt # post" "mutate_first i f cs = pre @ f tgt # post"
      using Cons.IH by blast
    then have "c # cs = (c # pre) @ tgt # post
             \<and> mutate_first i f (c # cs) = (c # pre) @ f tgt # post"
      using False by simp
    then show ?thesis by blast
  qed
qed

lemma mutate_first_twice:
  assumes "\<And>c. cid (f c) = cid c"
  shows "mutate_first i g (mutate_first i f cs) = mutate_first i (\<lambda>c. g (f c)) cs"
  by (induction cs) (simp_all add: assms)

lemma cid_set_current: "cid (set_current v c) = cid c"
  by (simp add: set_current_def)

lemma resolveDamage_nonneg: "0 \<le> fst (resolveDamage rnd n k b crit pos)"
  by (simp add: resolveDamage_def split: prod.splits)

text \<open>
  What \<^verbatim>\<open>processAttack\<close> does to the state: nothing, or a log entry, or a non-negative
  amount taken from the hit points of the undefeated target, with its log entries.
\<close>

lemma processAttack_effect:
  fixes rnd narrate a t b d pos and s :: CombatState
  defines "s' \<equiv> fst (snd (processAttack rnd narrate a t b d pos s))"
  shows "round_no s' = round_no s \<and> turnIndex s' = turnIndex s \<and> isActive s' = isActive s
       \<and> (combatants s' = combatants s
          \<or> (\<exists>tgt dmg. find (\<lambda>c. cid c = t) (combatants s) = Some tgt \<and> \<not> isDefeated tgt
                \<and> 0 \<le> dmg
                \<and> combatants s' =
                    mutate_first t
                      (\<lambda>c. if max 0 (current (hp tgt) - dmg) = 0
                           then set_defeated (set_current (max 0 (current (hp tgt) - dmg)) c)
                           else set_current (max 0 (current (hp tgt) - dmg)) c)
                      (combatants s)))"
proof -
  let ?keep = "round_no s' = round_no s \<and> turnIndex s' = turnIndex s \<and> isActive s' = isActive s"
  show ?thesis
  proof (cases "find (\<lambda>c. cid c = a) (combatants s)")
    case None
    then show ?thesis
      unfolding s'_def processAttack_def getCombatant_find by simp
  next
    case actor: (Some actor)
    show ?thesis
    proof (cases "find (\<lambda>c. cid c = t) (combatants s)")
      case None
      then show ?thesis
        unfolding s'_def processAttack_def getCombatant_find by (simp add: actor)
    next
      case tgt: (Some tgt)
      show ?thesis
      proof (cases "isDefeated tgt")
        case True
        then show ?thesis
          unfolding s'_def processAttack_def getCombatant_find by (simp add: actor tgt)
      next
        case alive: False
        obtain ar p1 where ar: "resolveAttack rnd b (ac tgt) [] pos = (ar, p1)"
          by (cases "resolveAttack rnd b (ac tgt) [] pos")
        show ?thesis
        proof (cases "success ar")
          case False
          then show ?thesis
            unfolding s'_def processAttack_def getCombatant_find
            by (simp add: actor tgt alive ar addToLog_fields)
        next
          case hit: True
          obtain dmg p2 where
            dmg: "resolveDamage rnd (dice d) (sides d) (bonus d) False p1 = (dmg, p2)"
            by (cases "resolveDamage rnd (dice d) (sides d) (bonus d) False p1")
          have nn: "0 \<le> dmg"
            using resolveDamage_nonneg [of rnd "dice d" "sides d" "bonus d" False p1]
            by (simp add: dmg)
          have keep: ?keep
            unfolding s'_def processAttack_def getCombatant_find
            by (simp add: actor tgt alive ar hit dmg Let_def addToLog_fields mutate_fields)
          have "combatants s' =
                  mutate_first t
                    (\<lambda>c. if max 0 (current (hp tgt) - dmg) = 0
                         then set_defeated (set_current (max 0 (current (hp tgt) - dmg)) c)
                         else set_current (max 0 (current (hp tgt) - dmg)) c)
                    (combatants s)"
            unfolding s'_def processAttack_def getCombatant_find
            by (simp add: actor tgt alive ar hit dmg Let_def addToLog_fields mutate_fields
                  mutate_first_twice cid_set_current)
          then show ?thesis using keep tgt alive nn by blast
        qed
      qed
    qed
  qed
qed

subsection \<open>The turn loop\<close>


text \<open>
  One pass through the loop body: the index is advanced; at index 0 the round is counted and
  the loop returns; otherwise it returns at a combatant that is not defeated, goes round
  again, or gives up.
\<close>

lemma nextTurn_loop_frame:
  "combatants (snd (nextTurn_loop k m s)) = combatants s
   \<and> isActive (snd (nextTurn_loop k m s)) = isActive s
   \<and> (newRound (fst (nextTurn_loop k m s)) \<longleftrightarrow> turnIndex (snd (nextTurn_loop k m s)) = Idx 0)
   \<and> round_no (snd (nextTurn_loop k m s)) =
       round_no s + (if turnIndex (snd (nextTurn_loop k m s)) = Idx 0 then 1 else 0)"
proof (induction k m s rule: nextTurn_loop.induct)
  case (1 attempts maxAttempts s)
  let ?s1 = "s\<lparr>turnIndex := advance (turnIndex s) (length (combatants s))\<rparr>"
  show ?case
  proof (cases "turnIndex ?s1 = Idx 0")
    case True
    then show ?thesis
      by (subst (1 2 3 4 5 6) nextTurn_loop.simps) (simp add: Let_def addToLog_fields)
  next
    case wrap: False
    show ?thesis
    proof (cases "fst (getCurrentCombatant ?s1)")
      case None
      show ?thesis
      proof (cases "attempts + 1 < maxAttempts")
        case True
        have eq: "nextTurn_loop attempts maxAttempts s = nextTurn_loop (attempts + 1) maxAttempts ?s1"
          using wrap None True by (subst nextTurn_loop.simps) (simp add: Let_def)
        show ?thesis
          unfolding eq using "1.IH"(1) [OF refl refl wrap None True] by simp
      next
        case False
        have eq: "nextTurn_loop attempts maxAttempts s =
                    (\<lparr>newRound = False, currentCombatant = None\<rparr>, ?s1)"
          using wrap None False by (subst nextTurn_loop.simps) (simp add: Let_def)
        show ?thesis unfolding eq using wrap by simp
      qed
    next
      case (Some cur)
      show ?thesis
      proof (cases "\<not> isDefeated cur")
        case True
        have eq: "nextTurn_loop attempts maxAttempts s =
                    (\<lparr>newRound = False, currentCombatant = Some cur\<rparr>, ?s1)"
          using wrap Some True by (subst nextTurn_loop.simps) (simp add: Let_def)
        show ?thesis unfolding eq using wrap by simp
      next
        case def: False
        show ?thesis
        proof (cases "attempts + 1 < maxAttempts")
          case True
          have eq: "nextTurn_loop attempts maxAttempts s =
                      nextTurn_loop (attempts + 1) maxAttempts ?s1"
            using wrap Some def True by (subst nextTurn_loop.simps) (simp add: Let_def)
          show ?thesis
            unfolding eq using "1.IH"(2) [OF refl refl wrap Some def True] by simp
        next
          case False
          have eq: "nextTurn_loop attempts maxAttempts s =
                      (\<lparr>newRound = False, currentCombatant = None\<rparr>, ?s1)"
            using wrap Some def False by (subst nextTurn_loop.simps) (simp add: Let_def)
          show ?thesis unfolding eq using wrap by simp
        qed
      qed
    qed
  qed
qed

lemma nextTurn_loop_step:
  fixes k m and s :: CombatState
  defines "s1 \<equiv> s\<lparr>turnIndex := advance (turnIndex s) (length (combatants s))\<rparr>"
  shows "(turnIndex s1 = Idx 0
            \<and> snd (nextTurn_loop k m s) = addToLog (RoundHeader (round_no s + 1))
                                            (s1\<lparr>round_no := round_no s + 1\<rparr>))
       \<or> (turnIndex s1 \<noteq> Idx 0 \<and> snd (nextTurn_loop k m s) = s1)
       \<or> (turnIndex s1 \<noteq> Idx 0 \<and> k + 1 < m
            \<and> nextTurn_loop k m s = nextTurn_loop (k + 1) m s1)"
  unfolding s1_def
  by (subst (1 2 3) nextTurn_loop.simps) (simp add: Let_def split: option.splits)

text \<open>
  Counting slots from the start of the combat, \<open>round * N + turnIndex\<close> moves forward by the
  number of slots the loop has advanced, and the loop never advances past the end of the
  order: the round is counted exactly when the index passes from the last slot to slot 0.
\<close>

lemma nextTurn_loop_position:
  assumes "turnIndex s = Idx t" "t < length (combatants s)"
  shows "\<exists>t' d. turnIndex (snd (nextTurn_loop k m s)) = Idx t'
           \<and> t' < length (combatants s) \<and> 1 \<le> d \<and> t + d \<le> length (combatants s)
           \<and> round_no (snd (nextTurn_loop k m s)) * int (length (combatants s)) + int t'
               = round_no s * int (length (combatants s)) + int t + int d"
  using assms
proof (induction "m - k" arbitrary: k s t rule: less_induct)
  case less
  let ?n = "length (combatants s)"
  let ?s1 = "s\<lparr>turnIndex := advance (turnIndex s) ?n\<rparr>"
  have n0: "?n \<noteq> 0" using less.prems by auto
  have adv: "turnIndex ?s1 = Idx ((t + 1) mod ?n)"
    using less.prems n0 by (simp add: advance_def)
  consider
    (wrap) "turnIndex ?s1 = Idx 0"
      "snd (nextTurn_loop k m s) = addToLog (RoundHeader (round_no s + 1))
                                     (?s1\<lparr>round_no := round_no s + 1\<rparr>)"
  | (stop) "turnIndex ?s1 \<noteq> Idx 0" "snd (nextTurn_loop k m s) = ?s1"
  | (again) "turnIndex ?s1 \<noteq> Idx 0" "k + 1 < m"
      "nextTurn_loop k m s = nextTurn_loop (k + 1) m ?s1"
    using nextTurn_loop_step [of s k m] by blast
  then show ?case
  proof cases
    case wrap
    then have "(t + 1) mod ?n = 0" using adv by simp
    then have last: "t + 1 = ?n"
      using less.prems(2) by (metis Suc_eq_plus1 Suc_leI le_neq_implies_less mod_less n0 nat.simps(3))
    have "turnIndex (snd (nextTurn_loop k m s)) = Idx 0"
      unfolding wrap(2) using wrap(1) by (simp add: addToLog_fields)
    moreover have "round_no (snd (nextTurn_loop k m s)) = round_no s + 1"
      unfolding wrap(2) by (simp add: addToLog_fields)
    moreover have "(round_no s + 1) * int ?n + int 0 = round_no s * int ?n + int t + int 1"
      using last by (simp add: algebra_simps flip: last)
    ultimately show ?thesis
      using n0 last by (metis le_refl neq0_conv)
  next
    case stop
    then have ne: "(t + 1) mod ?n \<noteq> 0" using adv by simp
    then have lt: "t + 1 < ?n"
      using less.prems(2) by (metis Suc_eq_plus1 Suc_leI le_neq_implies_less mod_self)
    then have "turnIndex (snd (nextTurn_loop k m s)) = Idx (t + 1)"
      unfolding stop(2) using adv by simp
    moreover have "round_no (snd (nextTurn_loop k m s)) = round_no s"
      unfolding stop(2) by simp
    ultimately show ?thesis using lt
      by (intro exI [of _ "t + 1"] exI [of _ 1]) simp
  next
    case again
    then have ne: "(t + 1) mod ?n \<noteq> 0" using adv by simp
    then have lt: "t + 1 < ?n"
      using less.prems(2) by (metis Suc_eq_plus1 Suc_leI le_neq_implies_less mod_self)
    have t1: "turnIndex ?s1 = Idx (t + 1)" using adv lt by simp
    have lt1: "t + 1 < length (combatants ?s1)" using lt by simp
    have "m - (k + 1) < m - k" using again(2) by simp
    from less.hyps [OF this t1 lt1]
    obtain t' d where
      "turnIndex (snd (nextTurn_loop (k + 1) m ?s1)) = Idx t'"
      "t' < ?n" "1 \<le> d" "t + 1 + d \<le> ?n"
      "round_no (snd (nextTurn_loop (k + 1) m ?s1)) * int ?n + int t'
         = round_no s * int ?n + int (t + 1) + int d"
      by auto
    then show ?thesis
      unfolding again(3)
      by (intro exI [of _ t'] exI [of _ "d + 1"]) simp
  qed
qed

lemma nextTurn_inactive:
  "\<not> isActive s \<Longrightarrow> nextTurn s = (\<lparr>newRound = False, currentCombatant = None\<rparr>, s)"
  by (simp add: nextTurn_def)

lemma nextTurn_frame:
  "combatants (snd (nextTurn s)) = combatants s \<and> isActive (snd (nextTurn s)) = isActive s"
  by (simp add: nextTurn_def nextTurn_loop_frame)

lemma nextTurn_round:
  "round_no (snd (nextTurn s)) = round_no s + (if newRound (fst (nextTurn s)) then 1 else 0)"
  using nextTurn_loop_frame [of 0 "length (combatants s)" s]
  by (simp add: nextTurn_def)

lemma nextTurns_frame:
  "combatants (snd (nextTurns k s)) = combatants s \<and> isActive (snd (nextTurns k s)) = isActive s"
proof (induction k arbitrary: s)
  case 0
  then show ?case by simp
next
  case (Suc k)
  obtain r s1 where step: "nextTurn s = (r, s1)" by (cases "nextTurn s")
  obtain rs s2 where rest: "nextTurns k s1 = (rs, s2)" by (cases "nextTurns k s1")
  have "combatants s1 = combatants s \<and> isActive s1 = isActive s"
    using nextTurn_frame [of s] by (simp add: step)
  moreover have "combatants s2 = combatants s1 \<and> isActive s2 = isActive s1"
    using Suc.IH [of s1] by (simp add: rest)
  ultimately show ?case by (simp add: step rest)
qed

lemma nextTurns_round:
  "round_no (snd (nextTurns k s)) =
     round_no s + int (length (filter newRound (fst (nextTurns k s))))"
proof (induction k arbitrary: s)
  case 0
  then show ?case by simp
next
  case (Suc k)
  obtain r s1 where step: "nextTurn s = (r, s1)" by (cases "nextTurn s")
  obtain rs s2 where rest: "nextTurns k s1 = (rs, s2)" by (cases "nextTurns k s1")
  have "round_no s1 = round_no s + (if newRound r then 1 else 0)"
    using nextTurn_round [of s] by (simp add: step)
  moreover have "round_no s2 = round_no s1 + int (length (filter newRound rs))"
    using Suc.IH [of s1] by (simp add: rest)
  ultimately show ?case by (simp add: step rest)
qed

lemma nextTurns_position:
  assumes "isActive s" "turnIndex s = Idx t" "t < length (combatants s)"
  shows "\<exists>t' d. turnIndex (snd (nextTurns k s)) = Idx t'
           \<and> t' < length (combatants s) \<and> k \<le> d \<and> d \<le> k * length (combatants s)
           \<and> round_no (snd (nextTurns k s)) * int (length (combatants s)) + int t'
               = round_no s * int (length (combatants s)) + int t + int d"
  using assms
proof (induction k arbitrary: s t)
  case 0
  then show ?case by simp
next
  case (Suc k)
  let ?n = "length (combatants s)"
  obtain r s1 where step: "nextTurn s = (r, s1)" by (cases "nextTurn s")
  obtain rs s2 where rest: "nextTurns k s1 = (rs, s2)" by (cases "nextTurns k s1")
  have s1: "s1 = snd (nextTurn_loop 0 ?n s)"
    using step Suc.prems(1) by (simp add: nextTurn_def)
  have fr: "combatants s1 = combatants s" "isActive s1"
    using nextTurn_frame [of s] Suc.prems(1) by (simp_all add: step)
  obtain t1 d1 where one: "turnIndex s1 = Idx t1" "t1 < ?n" "1 \<le> d1" "t + d1 \<le> ?n"
    "round_no s1 * int ?n + int t1 = round_no s * int ?n + int t + int d1"
    using nextTurn_loop_position [OF Suc.prems(2,3), of 0 ?n] unfolding s1 by blast
  have "t1 < length (combatants s1)" using one(2) fr(1) by simp
  from Suc.IH [OF fr(2) one(1) this]
  obtain t' d where more: "turnIndex s2 = Idx t'" "t' < ?n" "k \<le> d" "d \<le> k * ?n"
    "round_no s2 * int ?n + int t' = round_no s1 * int ?n + int t1 + int d"
    unfolding fr(1) by (auto simp: rest)
  have "Suc k \<le> d1 + d" using one(3) more(3) by simp
  moreover have "d1 + d \<le> Suc k * ?n" using one(4) more(4) by simp
  moreover have "round_no s2 * int ?n + int t'
                   = round_no s * int ?n + int t + int (d1 + d)"
    using one(5) more(5) by simp
  ultimately show ?case
    using more(1,2) by (auto simp: step rest)
qed

lemma skirmish_state:
  "skirmish = \<lparr>round_no = 1, turnIndex = Idx 0, combatants = [fighter, wizard, goblin],
               combatLog = [CombatBegins, InitiativeOrder [''Fighter'', ''Wizard'', ''Goblin 1'']],
               isActive = True\<rparr>"
  by (simp add: skirmish_def startCombat_def js_sort_def addToLog_def
        goblin_def fighter_def wizard_def)

lemma ambush_state:
  "ambush = \<lparr>round_no = 1, turnIndex = Idx 2,
     combatants = [fighter\<lparr>hp := \<lparr>current = 0, max_hp = 10\<rparr>, isDefeated := True\<rparr>, wizard, goblin],
     combatLog = [CombatBegins, InitiativeOrder [''Fighter'', ''Wizard'', ''Goblin 1''],
                  AttackHit ''Goblin 1'' ''Fighter'' 6 0 10, DefeatedEntry ''Fighter''],
     isActive = True\<rparr>"
  by code_simp

lemma rout_state:
  "rout = \<lparr>round_no = 1, turnIndex = Idx 2,
     combatants = [fighter\<lparr>hp := \<lparr>current = 0, max_hp = 10\<rparr>, isDefeated := True\<rparr>,
                   wizard\<lparr>hp := \<lparr>current = 0, max_hp = 10\<rparr>, isDefeated := True\<rparr>, goblin],
     combatLog = [CombatBegins, InitiativeOrder [''Fighter'', ''Wizard'', ''Goblin 1''],
                  AttackHit ''Goblin 1'' ''Fighter'' 6 0 10, DefeatedEntry ''Fighter'',
                  DefeatedEntry ''Wizard'', TakesDamage ''Wizard'' 3 ''fall'' 0 10],
     isActive = True\<rparr>"
  by code_simp

lemma spec_next_slot_step:
  "spec_next_slot cs t =
     (if t + 1 < length cs
      then (if \<not> isDefeated (cs ! (t + 1)) then Some (t + 1) else spec_next_slot cs (t + 1))
      else None)"
proof (cases "t + 1 < length cs")
  case True
  then have "[t + 1 ..< length cs] = (t + 1) # [t + 1 + 1 ..< length cs]"
    by (simp add: upt_conv_Cons)
  then show ?thesis using True by (simp add: spec_next_slot_def)
next
  case False
  then show ?thesis by (simp add: spec_next_slot_def)
qed

lemma spec_next_slot_Some:
  assumes "spec_next_slot cs t = Some j"
  shows "t < j \<and> j < length cs \<and> \<not> isDefeated (cs ! j)
       \<and> (\<forall>i. t < i \<and> i < j \<longrightarrow> isDefeated (cs ! i))"
proof -
  from assms obtain k where k: "k < length [t + 1 ..< length cs]"
    "\<not> isDefeated (cs ! ([t + 1 ..< length cs] ! k))" "j = [t + 1 ..< length cs] ! k"
    "\<forall>i<k. \<not> \<not> isDefeated (cs ! ([t + 1 ..< length cs] ! i))"
    unfolding spec_next_slot_def find_Some_iff by blast
  have j: "j = t + 1 + k" using k(1,3) by simp
  have "isDefeated (cs ! i)" if "t < i" "i < j" for i
  proof -
    have "i - (t + 1) < k" using that j by simp
    then have "isDefeated (cs ! ([t + 1 ..< length cs] ! (i - (t + 1))))" using k(4) by blast
    moreover have "[t + 1 ..< length cs] ! (i - (t + 1)) = i"
      using that j k(1) by simp
    ultimately show ?thesis by simp
  qed
  then show ?thesis using k(1,2) j by simp
qed

lemma spec_next_slot_None:
  assumes "spec_next_slot cs t = None" "t < i" "i < length cs"
  shows "isDefeated (cs ! i)"
proof -
  have "i \<in> set [t + 1 ..< length cs]" using assms(2,3) by simp
  then show ?thesis using assms(1) unfolding spec_next_slot_def find_None_iff by blast
qed

text \<open>
  The loop, entered with no more attempts behind it than slots, never gives up: it stops at
  the first slot after the current one whose combatant is not defeated, and when there is
  none it runs off the end of the order, wraps to slot 0 and counts the round.
\<close>

lemma nextTurn_loop_exact:
  assumes "isActive s" "turnIndex s = Idx t" "t < length (combatants s)" "k \<le> t"
  shows "nextTurn_loop k (length (combatants s)) s =
           (case spec_next_slot (combatants s) t of
              Some j \<Rightarrow> (\<lparr>newRound = False, currentCombatant = Some (combatants s ! j)\<rparr>,
                         s\<lparr>turnIndex := Idx j\<rparr>)
            | None \<Rightarrow> (\<lparr>newRound = True, currentCombatant = Some (combatants s ! 0)\<rparr>,
                       addToLog (RoundHeader (round_no s + 1))
                         (s\<lparr>turnIndex := Idx 0, round_no := round_no s + 1\<rparr>)))"
  using assms
proof (induction "length (combatants s) - t" arbitrary: s t k rule: less_induct)
  case less
  let ?n = "length (combatants s)"
  let ?s1 = "s\<lparr>turnIndex := advance (turnIndex s) ?n\<rparr>"
  have n0: "?n \<noteq> 0" using less.prems(3) by auto
  show ?case
  proof (cases "t + 1 < ?n")
    case False
    then have last: "t + 1 = ?n" using less.prems(3) by simp
    then have adv: "advance (turnIndex s) ?n = Idx 0"
      using less.prems(2) n0 by (simp add: advance_def)
    have none: "spec_next_slot (combatants s) t = None"
      using False by (subst spec_next_slot_step) simp
    show ?thesis
      unfolding none
      by (subst nextTurn_loop.simps)
         (use adv n0 less.prems(1) in
           \<open>simp add: Let_def getCurrentCombatant_def addToLog_def\<close>)
  next
    case True
    then have adv: "advance (turnIndex s) ?n = Idx (t + 1)"
      using less.prems(2) n0 by (simp add: advance_def)
    have cur: "fst (getCurrentCombatant ?s1) = Some (combatants s ! (t + 1))"
      using adv True n0 less.prems(1) by (simp add: getCurrentCombatant_def)
    show ?thesis
    proof (cases "isDefeated (combatants s ! (t + 1))")
      case False
      have some: "spec_next_slot (combatants s) t = Some (t + 1)"
        using True False by (subst spec_next_slot_step) simp
      show ?thesis
        unfolding some
        by (subst nextTurn_loop.simps) (use adv cur False in \<open>simp add: Let_def\<close>)
    next
      case def: True
      have same: "spec_next_slot (combatants s) t = spec_next_slot (combatants s) (t + 1)"
        using True def by (subst spec_next_slot_step) simp
      have more: "k + 1 < ?n" using less.prems(4) True by simp
      have step: "nextTurn_loop k ?n s = nextTurn_loop (k + 1) ?n ?s1"
        by (subst nextTurn_loop.simps) (use adv cur def more in \<open>simp add: Let_def\<close>)
      have "length (combatants ?s1) - (t + 1) < ?n - t" using True by simp
      moreover have "isActive ?s1" "turnIndex ?s1 = Idx (t + 1)"
        "t + 1 < length (combatants ?s1)" "k + 1 \<le> t + 1"
        using less.prems(1,4) adv True by simp_all
      ultimately have "nextTurn_loop (k + 1) (length (combatants ?s1)) ?s1 =
           (case spec_next_slot (combatants ?s1) (t + 1) of
              Some j \<Rightarrow> (\<lparr>newRound = False, currentCombatant = Some (combatants ?s1 ! j)\<rparr>,
                         ?s1\<lparr>turnIndex := Idx j\<rparr>)
            | None \<Rightarrow> (\<lparr>newRound = True, currentCombatant = Some (combatants ?s1 ! 0)\<rparr>,
                       addToLog (RoundHeader (round_no ?s1 + 1))
                         (?s1\<lparr>turnIndex := Idx 0, round_no := round_no ?s1 + 1\<rparr>)))"
        by (rule less.hyps)
      then show ?thesis
        unfolding step same
        by (cases "spec_next_slot (combatants s) (t + 1)") simp_all
    qed
  qed
qed

lemma spec_turn_in_range:
  assumes "t < length cs"
  shows "snd (spec_turn cs (r, t)) < length cs"
proof (cases "spec_next_slot cs t")
  case None
  then show ?thesis using assms by (auto simp: spec_turn_def)
next
  case (Some j)
  then show ?thesis using spec_next_slot_Some [OF Some] by (simp add: spec_turn_def)
qed

lemma nextTurn_refines_spec_turn:
  assumes "isActive s" "turnIndex s = Idx t" "t < length (combatants s)"
  shows "turnIndex (snd (nextTurn s)) = Idx (snd (spec_turn (combatants s) (round_no s, t)))
       \<and> round_no (snd (nextTurn s)) = fst (spec_turn (combatants s) (round_no s, t))"
proof -
  have "nextTurn s = nextTurn_loop 0 (length (combatants s)) s"
    using assms(1) by (simp add: nextTurn_def)
  then show ?thesis
    using nextTurn_loop_exact [OF assms, of 0]
    by (cases "spec_next_slot (combatants s) t") (simp_all add: spec_turn_def addToLog_def)
qed

lemma nextTurns_refine_spec_turn:
  assumes "isActive s" "turnIndex s = Idx t" "t < length (combatants s)"
  shows "turnIndex (snd (nextTurns k s))
           = Idx (snd ((spec_turn (combatants s) ^^ k) (round_no s, t)))
       \<and> round_no (snd (nextTurns k s))
           = fst ((spec_turn (combatants s) ^^ k) (round_no s, t))"
  using assms
proof (induction k arbitrary: s t)
  case 0
  then show ?case by simp
next
  case (Suc k)
  let ?cs = "combatants s"
  obtain r s1 where step: "nextTurn s = (r, s1)" by (cases "nextTurn s")
  obtain rs s2 where rest: "nextTurns k s1 = (rs, s2)" by (cases "nextTurns k s1")
  obtain r1 t1 where one: "spec_turn ?cs (round_no s, t) = (r1, t1)"
    by (cases "spec_turn ?cs (round_no s, t)")
  have fr: "combatants s1 = ?cs" "isActive s1"
    using nextTurn_frame [of s] Suc.prems(1) by (simp_all add: step)
  have s1: "turnIndex s1 = Idx t1" "round_no s1 = r1"
    using nextTurn_refines_spec_turn [OF Suc.prems] by (simp_all add: step one)
  have "t1 < length ?cs"
    using spec_turn_in_range [OF Suc.prems(3), of "round_no s"] by (simp add: one)
  then have "t1 < length (combatants s1)" by (simp add: fr(1))
  from Suc.IH [OF fr(2) s1(1) this]
  have "turnIndex s2 = Idx (snd ((spec_turn ?cs ^^ k) (r1, t1)))
      \<and> round_no s2 = fst ((spec_turn ?cs ^^ k) (r1, t1))"
    by (simp add: rest fr(1) s1(2))
  then show ?case
    by (simp add: step rest funpow_Suc_right one del: funpow.simps)
qed

text \<open>
  With nobody defeated the order is walked slot by slot: after \<open>k\<close> turns from slot \<open>t\<close>
  the slot is \<open>(t + k) mod N\<close> and \<open>(t + k) div N\<close> rounds have been counted.
\<close>

lemma spec_turn_all_live:
  assumes "\<forall>c \<in> set cs. \<not> isDefeated c" "t < length cs"
  shows "(spec_turn cs ^^ k) (r, t) = (r + int ((t + k) div length cs), (t + k) mod length cs)"
proof (induction k)
  case 0
  then show ?case using assms(2) by auto
next
  case (Suc k)
  let ?n = "length cs"
  let ?u = "(t + k) mod ?n"
  have n0: "0 < ?n" using assms(2) by auto
  have u: "?u < ?n" using n0 by simp
  have slot: "spec_next_slot cs ?u = (if ?u + 1 < ?n then Some (?u + 1) else None)"
    using assms(1) by (subst spec_next_slot_step) simp
  have "(spec_turn cs ^^ Suc k) (r, t) = spec_turn cs (r + int ((t + k) div ?n), ?u)"
    using Suc.IH by simp
  also have "\<dots> = (r + int ((t + Suc k) div ?n), (t + Suc k) mod ?n)"
  proof (cases "?u + 1 < ?n")
    case True
    then have "Suc (t + k) mod ?n = Suc ?u" "Suc (t + k) div ?n = (t + k) div ?n"
      by (simp_all add: mod_Suc div_Suc)
    then show ?thesis using True by (simp add: spec_turn_def slot)
  next
    case False
    then have "Suc ?u = ?n" using u by simp
    then have "Suc (t + k) mod ?n = 0" "Suc (t + k) div ?n = Suc ((t + k) div ?n)"
      by (simp_all add: mod_Suc div_Suc)
    then show ?thesis using False by (simp add: spec_turn_def slot)
  qed
  finally show ?case .
qed

text \<open>
  C8. On an active combat whose turn index points into the order, \<^verbatim>\<open>nextTurn\<close> does
  what the turn order asks: it stops at the first slot after the current one whose
  combatant is not defeated, leaving the round as it was, and when no such slot is left in
  the order it wraps to slot 0, adds one to the round and reports a new round. So the
  round is counted exactly when the turn index has run through the rest of the order, and
  at no other point. Over \<open>k\<close> calls the round and the slot are those of \<open>k\<close> turns of the
  order; the round grows by the number of calls that reported a new round; and when nobody
  is defeated the round is counted once every \<open>N\<close> calls: after \<open>k\<close> calls from slot \<open>t\<close> it
  has grown by \<open>(t + k) div N\<close>.
\<close>

theorem round_counts_cycles:
  assumes "isActive s" "turnIndex s = Idx t" "t < length (combatants s)"
  shows "nextTurn s =
           (case spec_next_slot (combatants s) t of
              Some j \<Rightarrow> (\<lparr>newRound = False, currentCombatant = Some (combatants s ! j)\<rparr>,
                         s\<lparr>turnIndex := Idx j\<rparr>)
            | None \<Rightarrow> (\<lparr>newRound = True, currentCombatant = Some (combatants s ! 0)\<rparr>,
                       addToLog (RoundHeader (round_no s + 1))
                         (s\<lparr>turnIndex := Idx 0, round_no := round_no s + 1\<rparr>)))
       \<and> turnIndex (snd (nextTurns k s))
           = Idx (snd ((spec_turn (combatants s) ^^ k) (round_no s, t)))
       \<and> round_no (snd (nextTurns k s))
           = fst ((spec_turn (combatants s) ^^ k) (round_no s, t))
       \<and> ((\<forall>c \<in> set (combatants s). \<not> isDefeated c) \<longrightarrow>
            turnIndex (snd (nextTurns k s)) = Idx ((t + k) mod length (combatants s))
            \<and> round_no (snd (nextTurns k s))
                = round_no s + int ((t + k) div length (combatants s)))
       \<and> (newRound (fst (nextTurn s)) \<longleftrightarrow> turnIndex (snd (nextTurn s)) = Idx 0)
       \<and> round_no (snd (nextTurn s)) =
           round_no s + (if turnIndex (snd (nextTurn s)) = Idx 0 then 1 else 0)
       \<and> round_no (snd (nextTurns k s)) =
           round_no s + int (length (filter newRound (fst (nextTurns k s))))
       \<and> (\<exists>t' d. turnIndex (snd (nextTurns k s)) = Idx t'
             \<and> t' < length (combatants s) \<and> k \<le> d \<and> d \<le> k * length (combatants s)
             \<and> round_no (snd (nextTurns k s)) * int (length (combatants s)) + int t'
                 = round_no s * int (length (combatants s)) + int t + int d)"
proof -
  have loop: "nextTurn s = nextTurn_loop 0 (length (combatants s)) s"
    using assms(1) by (simp add: nextTurn_def)
  have exact: "nextTurn s =
           (case spec_next_slot (combatants s) t of
              Some j \<Rightarrow> (\<lparr>newRound = False, currentCombatant = Some (combatants s ! j)\<rparr>,
                         s\<lparr>turnIndex := Idx j\<rparr>)
            | None \<Rightarrow> (\<lparr>newRound = True, currentCombatant = Some (combatants s ! 0)\<rparr>,
                       addToLog (RoundHeader (round_no s + 1))
                         (s\<lparr>turnIndex := Idx 0, round_no := round_no s + 1\<rparr>)))"
    unfolding loop using assms by (intro nextTurn_loop_exact) simp_all
  have turns: "turnIndex (snd (nextTurns k s))
           = Idx (snd ((spec_turn (combatants s) ^^ k) (round_no s, t)))
       \<and> round_no (snd (nextTurns k s))
           = fst ((spec_turn (combatants s) ^^ k) (round_no s, t))"
    using assms by (rule nextTurns_refine_spec_turn)
  have live: "turnIndex (snd (nextTurns k s)) = Idx ((t + k) mod length (combatants s))
            \<and> round_no (snd (nextTurns k s))
                = round_no s + int ((t + k) div length (combatants s))"
    if "\<forall>c \<in> set (combatants s). \<not> isDefeated c"
    using turns spec_turn_all_live [OF that assms(3), of k "round_no s"] by simp
  have one: "(newRound (fst (nextTurn s)) \<longleftrightarrow> turnIndex (snd (nextTurn s)) = Idx 0)
       \<and> round_no (snd (nextTurn s)) =
           round_no s + (if turnIndex (snd (nextTurn s)) = Idx 0 then 1 else 0)"
    using loop nextTurn_loop_frame [of 0 "length (combatants s)" s] by simp
  show ?thesis
    using exact turns live one nextTurns_round [of k s] nextTurns_position [OF assms, of k]
    by blast
qed

lemma skirmish_all_live: "\<forall>c \<in> set (combatants skirmish). \<not> isDefeated c"
  by (simp add: skirmish_state goblin_def fighter_def wizard_def)

lemma ambush_next_slot: "spec_next_slot (combatants ambush) 2 = None"
  by code_simp

theorem round_counts_cycles_witness:
  "isActive skirmish \<and> turnIndex skirmish = Idx 0 \<and> 0 < length (combatants skirmish)
   \<and> list_all (\<lambda>c. \<not> isDefeated c) (combatants skirmish)
   \<and> turnIndex (snd (nextTurn skirmish)) = Idx 1
   \<and> round_no (snd (nextTurn skirmish)) = round_no skirmish
   \<and> turnIndex (snd (nextTurns 3 skirmish)) = Idx 0
   \<and> round_no (snd (nextTurns 3 skirmish)) = round_no skirmish + 1
   \<and> turnIndex (snd (nextTurns 7 skirmish)) = Idx 1
   \<and> round_no (snd (nextTurns 7 skirmish)) = round_no skirmish + 2
   \<and> isActive ambush \<and> turnIndex ambush = Idx 2 \<and> 2 < length (combatants ambush)
   \<and> turnIndex (snd (nextTurn ambush)) = Idx 0
   \<and> round_no (snd (nextTurn ambush)) = round_no ambush + 1"
proof -
  have h: "isActive skirmish" "turnIndex skirmish = Idx 0" "0 < length (combatants skirmish)"
    by (simp_all add: skirmish_state)
  have n: "length (combatants skirmish) = 3" by (simp add: skirmish_state)
  have g: "isActive ambush" "turnIndex ambush = Idx 2" "2 < length (combatants ambush)"
    by (simp_all add: ambush_state)
  have live: "list_all (\<lambda>c. \<not> isDefeated c) (combatants skirmish)"
    using skirmish_all_live by (simp add: list_all_iff)
  have turns: "turnIndex (snd (nextTurns k skirmish)) = Idx ((0 + k) mod 3)
      \<and> round_no (snd (nextTurns k skirmish)) = round_no skirmish + int ((0 + k) div 3)" for k
    using round_counts_cycles [OF h, of k] skirmish_all_live unfolding n by blast
  have three: "turnIndex (snd (nextTurns 3 skirmish)) = Idx 0"
    "round_no (snd (nextTurns 3 skirmish)) = round_no skirmish + 1"
    using turns [of 3] by simp_all
  have seven: "turnIndex (snd (nextTurns 7 skirmish)) = Idx 1"
    "round_no (snd (nextTurns 7 skirmish)) = round_no skirmish + 2"
    using turns [of 7] by simp_all
  have "nextTurns (Suc 0) skirmish = ([fst (nextTurn skirmish)], snd (nextTurn skirmish))"
    by (simp add: split_beta)
  then have first: "turnIndex (snd (nextTurn skirmish)) = Idx 1"
    "round_no (snd (nextTurn skirmish)) = round_no skirmish"
    using turns [of "Suc 0"] by simp_all
  have "nextTurn ambush =
           (case spec_next_slot (combatants ambush) 2 of
              Some j \<Rightarrow> (\<lparr>newRound = False, currentCombatant = Some (combatants ambush ! j)\<rparr>,
                         ambush\<lparr>turnIndex := Idx j\<rparr>)
            | None \<Rightarrow> (\<lparr>newRound = True, currentCombatant = Some (combatants ambush ! 0)\<rparr>,
                       addToLog (RoundHeader (round_no ambush + 1))
                         (ambush\<lparr>turnIndex := Idx 0, round_no := round_no ambush + 1\<rparr>)))"
    using round_counts_cycles [OF g, of 0] by blast
  then have wrap: "turnIndex (snd (nextTurn ambush)) = Idx 0"
    "round_no (snd (nextTurn ambush)) = round_no ambush + 1"
    by (simp_all add: ambush_next_slot addToLog_def)
  show ?thesis
    using h g live first three seven wrap by simp
qed

subsection \<open>Damage and healing through the manager\<close>

lemma applyDamage_effect:
  "CombatManager_applyDamage t dmg src s =
     (case find (\<lambda>c. cid c = t) (combatants s) of
        None \<Rightarrow> s
      | Some tgt \<Rightarrow>
          if isDefeated tgt then s
          else (let v = max 0 (current (hp tgt) - dmg) in
                if v = 0 then
                  addToLog (TakesDamage (name tgt) dmg src v (max_hp (hp tgt)))
                    (addToLog (DefeatedEntry (name tgt))
                       (mutate t (\<lambda>c. set_defeated (set_current v c)) s))
                else
                  addToLog (TakesDamage (name tgt) dmg src v (max_hp (hp tgt)))
                    (mutate t (set_current v) s)))"
  unfolding CombatManager_applyDamage_def getCombatant_find
  by (simp add: Let_def mutate_def mutate_first_twice cid_set_current split: option.splits)

lemma applyHealing_effect:
  "CombatManager_applyHealing t h src s =
     (case find (\<lambda>c. cid c = t) (combatants s) of
        None \<Rightarrow> s
      | Some tgt \<Rightarrow>
          if isDefeated tgt then s
          else (let v = min (max_hp (hp tgt)) (current (hp tgt) + h) in
                addToLog (Healed (name tgt) (v - current (hp tgt)) src v (max_hp (hp tgt)))
                  (mutate t (set_current v) s)))"
  unfolding CombatManager_applyHealing_def getCombatant_find
  by (simp add: Let_def split: option.splits)

subsection \<open>Defeated combatants are not touched\<close>

lemma defeated_frozen_refl: "defeated_frozen cs cs"
  by (induction cs) (simp_all add: defeated_frozen_def)

lemma defeated_frozen_replace:
  "\<not> isDefeated tgt \<Longrightarrow> defeated_frozen (pre @ tgt # post) (pre @ x # post)"
  using defeated_frozen_refl [of pre] defeated_frozen_refl [of post]
  by (simp add: defeated_frozen_def)

lemma mutate_first_frozen:
  assumes "find (\<lambda>c. cid c = i) cs = Some tgt" "\<not> isDefeated tgt"
  shows "defeated_frozen cs (mutate_first i f cs)"
proof -
  obtain pre post where "cs = pre @ tgt # post" "mutate_first i f cs = pre @ f tgt # post"
    using mutate_first_split [OF assms(1)] by blast
  then show ?thesis using defeated_frozen_replace [OF assms(2)] by simp
qed

lemma processAttack_frozen:
  "defeated_frozen (combatants s)
     (combatants (fst (snd (processAttack rnd narrate a t b d pos s))))"
  using processAttack_effect [of rnd narrate a t b d pos s]
  by (auto simp: defeated_frozen_refl mutate_first_frozen)

lemma applyDamage_frozen:
  "defeated_frozen (combatants s) (combatants (CombatManager_applyDamage t dmg src s))"
  by (simp add: applyDamage_effect Let_def addToLog_fields mutate_fields
        defeated_frozen_refl mutate_first_frozen split: option.splits)

lemma applyHealing_frozen:
  "defeated_frozen (combatants s) (combatants (CombatManager_applyHealing t h src s))"
  by (simp add: applyHealing_effect Let_def addToLog_fields mutate_fields
        defeated_frozen_refl mutate_first_frozen split: option.splits)

lemma checkCombatEnd_frame:
  "round_no (snd (checkCombatEnd s)) = round_no s
   \<and> turnIndex (snd (checkCombatEnd s)) = turnIndex s
   \<and> combatants (snd (checkCombatEnd s)) = combatants s"
  by (simp add: checkCombatEnd_def Let_def addToLog_fields)

lemma endCombat_frame:
  "round_no (endCombat s) = round_no s \<and> turnIndex (endCombat s) = turnIndex s
   \<and> combatants (endCombat s) = combatants s"
  by (simp add: endCombat_def addToLog_fields)

lemma processAttack_defeated_target:
  assumes "fst (getCombatant t s) = Some tgt" "isDefeated tgt"
  shows "\<not> succeeded (fst (processAttack rnd narrate a t b d pos s))
       \<and> snd (processAttack rnd narrate a t b d pos s) = (s, pos)"
  using assms unfolding processAttack_def
  by (simp split: option.splits)

subsection \<open>The example combat\<close>

lemma reachable_nextTurns: "reachable s \<Longrightarrow> reachable (snd (nextTurns k s))"
proof (induction k arbitrary: s)
  case 0
  then show ?case by simp
next
  case (Suc k)
  obtain r s1 where step: "nextTurn s = (r, s1)" by (cases "nextTurn s")
  obtain rs s2 where rest: "nextTurns k s1 = (rs, s2)" by (cases "nextTurns k s1")
  have "reachable (snd (nextTurn s))" using Suc.prems by (rule r_next)
  then have "reachable s1" by (simp add: step)
  then have "reachable (snd (nextTurns k s1))" by (rule Suc.IH)
  then show ?case by (simp add: step rest)
qed

lemma reachable_ambush: "reachable ambush"
  unfolding ambush_def skirmish_def
  by (intro r_attack reachable_nextTurns r_start)

text \<open>
  C9. Every operation of the manager leaves each defeated combatant exactly as it was, so
  hit points and the defeated flag of a defeated combatant never change; when the target is
  defeated, \<^verbatim>\<open>processAttack\<close> fails without drawing and without touching the state, and
  \<^verbatim>\<open>applyDamage\<close> and \<^verbatim>\<open>applyHealing\<close> return the state as it was; \<^verbatim>\<open>startCombat\<close>
  installs the combatants it is given, unchanged.
\<close>

theorem defeat_is_permanent:
  "defeated_frozen (combatants s)
     (combatants (fst (snd (processAttack rnd narrate a t b d pos s))))
   \<and> defeated_frozen (combatants s) (combatants (CombatManager_applyDamage t dmg src s))
   \<and> defeated_frozen (combatants s) (combatants (CombatManager_applyHealing t h src s))
   \<and> combatants (snd (nextTurn s)) = combatants s
   \<and> combatants (snd (checkCombatEnd s)) = combatants s
   \<and> combatants (endCombat s) = combatants s
   \<and> mset (combatants (startCombat cs)) = mset cs
   \<and> (\<forall>tgt. fst (getCombatant t s) = Some tgt \<and> isDefeated tgt \<longrightarrow>
          \<not> succeeded (fst (processAttack rnd narrate a t b d pos s))
          \<and> snd (processAttack rnd narrate a t b d pos s) = (s, pos)
          \<and> CombatManager_applyDamage t dmg src s = s
          \<and> CombatManager_applyHealing t h src s = s)"
proof -
  have "CombatManager_applyDamage t dmg src s = s \<and> CombatManager_applyHealing t h src s = s"
    if "fst (getCombatant t s) = Some tgt" "isDefeated tgt" for tgt
    using that by (simp add: applyDamage_effect applyHealing_effect getCombatant_find)
  moreover have "mset (combatants (startCombat cs)) = mset cs"
    by (simp add: startCombat_def addToLog_def Let_def mset_js_sort)
  ultimately show ?thesis
    using processAttack_frozen [of s rnd narrate a t b d pos]
      applyDamage_frozen [of s t dmg src] applyHealing_frozen [of s t h src]
      nextTurn_frame [of s] checkCombatEnd_frame [of s] endCombat_frame [of s]
      processAttack_defeated_target [of t s _ rnd narrate a b d pos]
    by blast
qed

theorem defeat_is_permanent_witness:
  "map_option isDefeated (fst (getCombatant ''p1'' ambush)) = Some True
   \<and> \<not> succeeded (fst (processAttack high_rolls no_narrative ''p2'' ''p1'' 5
                         \<lparr>dice = 1, sides = 8, bonus = 3\<rparr> 7 ambush))
   \<and> snd (processAttack high_rolls no_narrative ''p2'' ''p1'' 5
            \<lparr>dice = 1, sides = 8, bonus = 3\<rparr> 7 ambush) = (ambush, 7)
   \<and> CombatManager_applyDamage ''p1'' 4 ''fall'' ambush = ambush
   \<and> CombatManager_applyHealing ''p1'' 4 ''fall'' ambush = ambush
   \<and> defeated_frozen (combatants ambush) (combatants rout)
   \<and> map isDefeated (combatants ambush) = [True, False, False]
   \<and> map isDefeated (combatants rout) = [True, True, False]"
proof -
  obtain f where f: "fst (getCombatant ''p1'' ambush) = Some f" "isDefeated f"
    by (simp add: ambush_state getCombatant_def fighter_def)
  have flags: "map isDefeated (combatants ambush) = [True, False, False]"
    "map isDefeated (combatants rout) = [True, True, False]"
    by (simp_all add: ambush_state rout_state fighter_def wizard_def goblin_def)
  note inst1 = defeat_is_permanent [of ambush high_rolls no_narrative "''p2''" "''p1''" 5
      "\<lparr>dice = 1, sides = 8, bonus = 3\<rparr>" 7 4 "''fall''" 4]
  note inst2 = defeat_is_permanent [of ambush high_rolls no_narrative "''p2''" "''p2''" 5
      "\<lparr>dice = 1, sides = 8, bonus = 3\<rparr>" 7 3 "''fall''" 4]
  have "defeated_frozen (combatants ambush) (combatants rout)"
    using inst2 by (simp add: rout_def)
  then show ?thesis
    using inst1 f flags by simp
qed

text \<open>
  C1. In \<open>ambush\<close>, a state reached by starting a combat, two calls of \<^verbatim>\<open>nextTurn\<close> and one
  attack, the wizard and the goblin are not defeated and \<^verbatim>\<open>checkCombatEnd\<close> does not end
  the combat; the next call of \<^verbatim>\<open>nextTurn\<close> wraps to slot 0 and returns the defeated
  fighter as the current combatant.
\<close>

theorem nextTurn_returns_defeated:
  "reachable ambush
   \<and> isActive ambush
   \<and> map isDefeated (combatants ambush) = [True, False, False]
   \<and> \<not> ended (fst (checkCombatEnd ambush))
   \<and> newRound (fst (nextTurn ambush))
   \<and> map_option cid (currentCombatant (fst (nextTurn ambush))) = Some ''p1''
   \<and> map_option isDefeated (currentCombatant (fst (nextTurn ambush))) = Some True"
proof -
  have "isActive ambush
   \<and> map isDefeated (combatants ambush) = [True, False, False]
   \<and> \<not> ended (fst (checkCombatEnd ambush))
   \<and> newRound (fst (nextTurn ambush))
   \<and> map_option cid (currentCombatant (fst (nextTurn ambush))) = Some ''p1''
   \<and> map_option isDefeated (currentCombatant (fst (nextTurn ambush))) = Some True"
    by code_simp
  then show ?thesis using reachable_ambush by simp
qed

subsection \<open>Hit points stay in range\<close>

lemma hp_in_range_replace:
  assumes "hp_in_range (pre @ tgt # post)"
    and "0 \<le> current (hp x)" "current (hp x) \<le> max_hp (hp x)"
  shows "hp_in_range (pre @ x # post)"
  using assms by (simp add: hp_in_range_def)

lemma hp_in_range_member:
  "hp_in_range (pre @ tgt # post) \<Longrightarrow> 0 \<le> current (hp tgt) \<and> current (hp tgt) \<le> max_hp (hp tgt)"
  by (simp add: hp_in_range_def)

lemma mutate_first_in_range:
  assumes "hp_in_range cs" "find (\<lambda>c. cid c = i) cs = Some tgt"
    and "0 \<le> current (hp tgt) \<Longrightarrow> current (hp tgt) \<le> max_hp (hp tgt) \<Longrightarrow>
           0 \<le> current (hp (f tgt)) \<and> current (hp (f tgt)) \<le> max_hp (hp (f tgt))"
  shows "hp_in_range (mutate_first i f cs)"
proof -
  obtain pre post where split: "cs = pre @ tgt # post"
    and result: "mutate_first i f cs = pre @ f tgt # post"
    using mutate_first_split [OF assms(2)] by blast
  have before: "hp_in_range (pre @ tgt # post)" using assms(1) by (simp only: split)
  have "0 \<le> current (hp tgt) \<and> current (hp tgt) \<le> max_hp (hp tgt)"
    using before by (rule hp_in_range_member)
  then have after: "0 \<le> current (hp (f tgt))" "current (hp (f tgt)) \<le> max_hp (hp (f tgt))"
    using assms(3) by simp_all
  have "hp_in_range (pre @ f tgt # post)"
    using before after by (rule hp_in_range_replace)
  then show ?thesis by (simp only: result)
qed

lemma set_current_hp:
  "current (hp (set_current v c)) = v" "max_hp (hp (set_current v c)) = max_hp (hp c)"
  "current (hp (set_defeated c)) = current (hp c)" "max_hp (hp (set_defeated c)) = max_hp (hp c)"
  by (simp_all add: set_current_def set_defeated_def)

lemma processAttack_in_range:
  assumes "hp_in_range (combatants s)"
  shows "hp_in_range (combatants (fst (snd (processAttack rnd narrate a t b d pos s))))"
proof -
  let ?s' = "fst (snd (processAttack rnd narrate a t b d pos s))"
  consider (same) "combatants ?s' = combatants s"
    | (hit) tgt dmg where "find (\<lambda>c. cid c = t) (combatants s) = Some tgt" "0 \<le> dmg"
        "combatants ?s' =
           mutate_first t
             (\<lambda>c. if max 0 (current (hp tgt) - dmg) = 0
                  then set_defeated (set_current (max 0 (current (hp tgt) - dmg)) c)
                  else set_current (max 0 (current (hp tgt) - dmg)) c)
             (combatants s)"
    using processAttack_effect [of rnd narrate a t b d pos s] by blast
  then show ?thesis
  proof cases
    case same
    then show ?thesis using assms by simp
  next
    case hit
    show ?thesis
      unfolding hit(3)
      by (rule mutate_first_in_range [OF assms hit(1)])
         (use hit(2) in \<open>simp add: set_current_hp max_def\<close>)
  qed
qed

lemma applyDamage_in_range:
  assumes "hp_in_range (combatants s)" "0 \<le> dmg"
  shows "hp_in_range (combatants (CombatManager_applyDamage t dmg src s))"
proof (cases "find (\<lambda>c. cid c = t) (combatants s)")
  case None
  then show ?thesis using assms(1) by (simp add: applyDamage_effect)
next
  case (Some tgt)
  define v where "v = max 0 (current (hp tgt) - dmg)"
  have v: "0 \<le> v" "0 \<le> current (hp tgt) \<Longrightarrow> v \<le> current (hp tgt)"
    using assms(2) by (simp_all add: v_def)
  have eff: "combatants (CombatManager_applyDamage t dmg src s) =
               (if isDefeated tgt then combatants s
                else if v = 0
                  then mutate_first t (\<lambda>c. set_defeated (set_current v c)) (combatants s)
                  else mutate_first t (set_current v) (combatants s))"
    unfolding applyDamage_effect v_def
    by (simp add: Some Let_def addToLog_fields mutate_fields)
  have a: "hp_in_range (mutate_first t (\<lambda>c. set_defeated (set_current v c)) (combatants s))"
    by (rule mutate_first_in_range [OF assms(1) Some]) (use v in \<open>simp add: set_current_hp\<close>)
  have b: "hp_in_range (mutate_first t (set_current v) (combatants s))"
    by (rule mutate_first_in_range [OF assms(1) Some]) (use v in \<open>simp add: set_current_hp\<close>)
  show ?thesis
    unfolding eff using assms(1) a b by (simp only: if_split) blast
qed

lemma applyHealing_in_range:
  assumes "hp_in_range (combatants s)" "0 \<le> h"
  shows "hp_in_range (combatants (CombatManager_applyHealing t h src s))"
proof (cases "find (\<lambda>c. cid c = t) (combatants s)")
  case None
  then show ?thesis using assms(1) by (simp add: applyHealing_effect)
next
  case (Some tgt)
  have "hp_in_range (mutate_first t
          (set_current (min (max_hp (hp tgt)) (current (hp tgt) + h))) (combatants s))"
    by (rule mutate_first_in_range [OF assms(1) Some])
       (use assms(2) in \<open>simp add: set_current_hp min_def\<close>)
  then show ?thesis
    using assms(1)
    by (cases "isDefeated tgt")
       (simp_all add: applyHealing_effect Some Let_def addToLog_fields mutate_fields)
qed

lemma hp_in_range_mset:
  assumes "mset cs = mset cs'"
  shows "hp_in_range cs = hp_in_range cs'"
proof -
  have "set cs = set cs'" using assms by (rule mset_eq_setD)
  then show ?thesis by (simp add: hp_in_range_def list_all_iff)
qed

text \<open>
  C10, as the code has it. When the damage and healing amounts passed to \<^verbatim>\<open>applyDamage\<close>
  and \<^verbatim>\<open>applyHealing\<close> are not negative, every operation of the manager keeps the hit
  points of every combatant between zero and the maximum, and \<^verbatim>\<open>startCombat\<close> installs
  a roster in range when it is given one.
\<close>

theorem hp_stays_in_range:
  assumes "hp_in_range (combatants s)" "0 \<le> dmg" "0 \<le> h" "hp_in_range cs"
  shows "hp_in_range (combatants (fst (snd (processAttack rnd narrate a t b d pos s))))
       \<and> hp_in_range (combatants (CombatManager_applyDamage t dmg src s))
       \<and> hp_in_range (combatants (CombatManager_applyHealing t h src s))
       \<and> hp_in_range (combatants (snd (nextTurn s)))
       \<and> hp_in_range (combatants (snd (checkCombatEnd s)))
       \<and> hp_in_range (combatants (endCombat s))
       \<and> hp_in_range (combatants (startCombat cs))"
proof -
  have "mset (combatants (startCombat cs)) = mset cs"
    by (simp add: startCombat_def addToLog_def Let_def mset_js_sort)
  then have "hp_in_range (combatants (startCombat cs))"
    using assms(4) hp_in_range_mset by blast
  then show ?thesis
    using processAttack_in_range [OF assms(1), of rnd narrate a t b d pos]
      applyDamage_in_range [OF assms(1,2), of t src]
      applyHealing_in_range [OF assms(1,3), of t src]
      assms(1)
    by (simp add: nextTurn_frame checkCombatEnd_frame endCombat_frame)
qed

theorem hp_stays_in_range_witness:
  "hp_in_range (combatants skirmish) \<and> (0::int) \<le> 3 \<and> (0::int) \<le> 20
   \<and> hp_in_range [goblin, fighter, wizard]
   \<and> hp_in_range (combatants (CombatManager_applyDamage ''p2'' 3 ''fall'' skirmish))
   \<and> hp_in_range (combatants (CombatManager_applyHealing ''p2'' 20 ''fall'' skirmish))
   \<and> map (\<lambda>c. current (hp c)) (combatants (CombatManager_applyDamage ''p2'' 3 ''fall'' skirmish))
       = [5, 0, 2]
   \<and> map (\<lambda>c. current (hp c)) (combatants (CombatManager_applyHealing ''p2'' 20 ''fall'' skirmish))
       = [5, 10, 2]"
proof -
  have h: "hp_in_range (combatants skirmish)" "(0::int) \<le> 3" "(0::int) \<le> 20"
    "hp_in_range [goblin, fighter, wizard]"
    by (simp_all add: skirmish_state hp_in_range_def goblin_def fighter_def wizard_def)
  have v: "map (\<lambda>c. current (hp c)) (combatants (CombatManager_applyDamage ''p2'' 3 ''fall'' skirmish))
       = [5, 0, 2]"
    "map (\<lambda>c. current (hp c)) (combatants (CombatManager_applyHealing ''p2'' 20 ''fall'' skirmish))
       = [5, 10, 2]"
    by code_simp+
  show ?thesis
    using h v hp_stays_in_range [OF h, of high_rolls no_narrative "''p1''" "''p2''" 0
        "\<lparr>dice = 1, sides = 6, bonus = 0\<rparr>" 0 "''fall''"]
    by simp
qed

text \<open>
  C10 as stated fails: the amounts are not checked, so healing by a negative amount takes
  hit points below zero and damage by a negative amount takes them above the maximum.
\<close>

theorem hp_range_counterexample:
  "hp_in_range (combatants skirmish)
   \<and> \<not> hp_in_range (combatants (CombatManager_applyHealing ''p1'' (- 10) ''curse'' skirmish))
   \<and> map (\<lambda>c. current (hp c))
         (combatants (CombatManager_applyHealing ''p1'' (- 10) ''curse'' skirmish)) = [- 5, 3, 2]
   \<and> \<not> hp_in_range (combatants (CombatManager_applyDamage ''p1'' (- 10) ''curse'' skirmish))
   \<and> map (\<lambda>c. current (hp c))
         (combatants (CombatManager_applyDamage ''p1'' (- 10) ''curse'' skirmish)) = [15, 3, 2]"
  by code_simp

subsection \<open>The active flag\<close>

text \<open>\<^verbatim>\<open>processAttack\<close> neither reads nor writes the active flag.\<close>

lemma mutate_isActive: "mutate i f (s\<lparr>isActive := x\<rparr>) = (mutate i f s)\<lparr>isActive := x\<rparr>"
  by (simp add: mutate_def)

lemma addToLog_isActive: "addToLog e (s\<lparr>isActive := x\<rparr>) = (addToLog e s)\<lparr>isActive := x\<rparr>"
  by (simp add: addToLog_def)

lemma processAttack_ignores_flag:
  "processAttack rnd narrate a t b d pos (s\<lparr>isActive := x\<rparr>) =
     (fst (processAttack rnd narrate a t b d pos s),
      (fst (snd (processAttack rnd narrate a t b d pos s)))\<lparr>isActive := x\<rparr>,
      snd (snd (processAttack rnd narrate a t b d pos s)))"
  unfolding processAttack_def getCombatant_find
  by (simp add: Let_def mutate_isActive addToLog_isActive split: option.splits prod.splits)

text \<open>
  On an inactive combat \<^verbatim>\<open>nextTurn\<close> returns no combatant and leaves the whole state as
  it was: its first statement is the guard on the active flag. \<^verbatim>\<open>processAttack\<close> has no
  such guard: it leaves the round, the turn index and the active flag alone, and for the
  rest it does exactly what it does on the same state with the flag set.
\<close>

lemma inactive_nextTurn_no_mutation:
  assumes "\<not> isActive s"
  shows "nextTurn s = (\<lparr>newRound = False, currentCombatant = None\<rparr>, s)
       \<and> round_no (fst (snd (processAttack rnd narrate a t b d pos s))) = round_no s
       \<and> turnIndex (fst (snd (processAttack rnd narrate a t b d pos s))) = turnIndex s
       \<and> \<not> isActive (fst (snd (processAttack rnd narrate a t b d pos s)))
       \<and> processAttack rnd narrate a t b d pos s =
           (fst (processAttack rnd narrate a t b d pos (s\<lparr>isActive := True\<rparr>)),
            (fst (snd (processAttack rnd narrate a t b d pos (s\<lparr>isActive := True\<rparr>))))
              \<lparr>isActive := False\<rparr>,
            snd (snd (processAttack rnd narrate a t b d pos (s\<lparr>isActive := True\<rparr>))))"
proof -
  have "s = (s\<lparr>isActive := True\<rparr>)\<lparr>isActive := False\<rparr>" using assms by simp
  then have "processAttack rnd narrate a t b d pos s =
               processAttack rnd narrate a t b d pos ((s\<lparr>isActive := True\<rparr>)\<lparr>isActive := False\<rparr>)"
    by simp
  then have same: "processAttack rnd narrate a t b d pos s =
           (fst (processAttack rnd narrate a t b d pos (s\<lparr>isActive := True\<rparr>)),
            (fst (snd (processAttack rnd narrate a t b d pos (s\<lparr>isActive := True\<rparr>))))
              \<lparr>isActive := False\<rparr>,
            snd (snd (processAttack rnd narrate a t b d pos (s\<lparr>isActive := True\<rparr>))))"
    by (simp only: processAttack_ignores_flag)
  show ?thesis
    using assms same processAttack_effect [of rnd narrate a t b d pos s]
    by (simp add: nextTurn_inactive)
qed

lemma inactive_nextTurn_no_mutation_example:
  "\<not> isActive (endCombat skirmish)
   \<and> nextTurn (endCombat skirmish)
       = (\<lparr>newRound = False, currentCombatant = None\<rparr>, endCombat skirmish)
   \<and> turnIndex (fst (snd (processAttack high_rolls no_narrative ''enemy1'' ''p1'' 2
         \<lparr>dice = 1, sides = 6, bonus = 0\<rparr> 0 (endCombat skirmish)))) = Idx 0
   \<and> round_no (fst (snd (processAttack high_rolls no_narrative ''enemy1'' ''p1'' 2
         \<lparr>dice = 1, sides = 6, bonus = 0\<rparr> 0 (endCombat skirmish)))) = 1"
proof -
  have h: "\<not> isActive (endCombat skirmish)"
    by (simp add: endCombat_def addToLog_fields)
  have f: "turnIndex (endCombat skirmish) = Idx 0" "round_no (endCombat skirmish) = 1"
    by (simp_all add: endCombat_frame skirmish_state)
  note inst = inactive_nextTurn_no_mutation [OF h, of high_rolls no_narrative "''enemy1''" "''p1''" 2
        "\<lparr>dice = 1, sides = 6, bonus = 0\<rparr>" 0]
  have a: "nextTurn (endCombat skirmish)
             = (\<lparr>newRound = False, currentCombatant = None\<rparr>, endCombat skirmish)"
    using inst by blast
  have "turnIndex (fst (snd (processAttack high_rolls no_narrative ''enemy1'' ''p1'' 2
         \<lparr>dice = 1, sides = 6, bonus = 0\<rparr> 0 (endCombat skirmish)))) = turnIndex (endCombat skirmish)"
    using inst by blast
  then have b: "turnIndex (fst (snd (processAttack high_rolls no_narrative ''enemy1'' ''p1'' 2
         \<lparr>dice = 1, sides = 6, bonus = 0\<rparr> 0 (endCombat skirmish)))) = Idx 0"
    using f(1) by (rule trans)
  have "round_no (fst (snd (processAttack high_rolls no_narrative ''enemy1'' ''p1'' 2
         \<lparr>dice = 1, sides = 6, bonus = 0\<rparr> 0 (endCombat skirmish)))) = round_no (endCombat skirmish)"
    using inst by blast
  then have c: "round_no (fst (snd (processAttack high_rolls no_narrative ''enemy1'' ''p1'' 2
         \<lparr>dice = 1, sides = 6, bonus = 0\<rparr> 0 (endCombat skirmish)))) = 1"
    using f(2) by (rule trans)
  show ?thesis
    using h a b c by blast
qed

text \<open>
  C2. No mutation is permitted once the combat is inactive, and \<^verbatim>\<open>nextTurn\<close> guards
  against it; \<^verbatim>\<open>processAttack\<close> does not. After \<^verbatim>\<open>endCombat\<close> on the example combat the
  goblin's attack with every draw at \<open>19/20\<close> still takes the fighter from 5 hit points to
  0, marks the fighter defeated and writes two log entries.
\<close>

theorem processAttack_mutates_inactive:
  "\<not> isActive (endCombat skirmish)
   \<and> map (\<lambda>c. current (hp c)) (combatants (endCombat skirmish)) = [5, 3, 2]
   \<and> map isDefeated (combatants (endCombat skirmish)) = [False, False, False]
   \<and> map (\<lambda>c. current (hp c))
         (combatants (fst (snd (processAttack high_rolls no_narrative ''enemy1'' ''p1'' 2
            \<lparr>dice = 1, sides = 6, bonus = 0\<rparr> 0 (endCombat skirmish))))) = [0, 3, 2]
   \<and> map isDefeated
         (combatants (fst (snd (processAttack high_rolls no_narrative ''enemy1'' ''p1'' 2
            \<lparr>dice = 1, sides = 6, bonus = 0\<rparr> 0 (endCombat skirmish))))) = [True, False, False]
   \<and> combatLog (fst (snd (processAttack high_rolls no_narrative ''enemy1'' ''p1'' 2
            \<lparr>dice = 1, sides = 6, bonus = 0\<rparr> 0 (endCombat skirmish))))
       = combatLog (endCombat skirmish)
         @ [AttackHit ''Goblin 1'' ''Fighter'' 6 0 10, DefeatedEntry ''Fighter'']"
  by code_simp

subsection \<open>The queries\<close>

lemma checkCombatEnd_result:
  "fst (checkCombatEnd (s\<lparr>isActive := x, combatLog := l\<rparr>)) = fst (checkCombatEnd s)"
  by (simp add: checkCombatEnd_def Let_def)




subsection \<open>The turn index of a reachable state\<close>

text \<open>
  Whatever the manager has been asked to do, the turn index points into the roster unless
  the roster is empty. So the hypothesis on the turn index in the round-counting theorem
  holds of every active state with at least one combatant that a manager can be in.
\<close>

lemma length_mutate_first: "length (mutate_first i f cs) = length cs"
  by (induction cs) simp_all

lemma length_js_sort: "length (js_sort cmp cs) = length cs"
  using mset_js_sort [of cmp cs] by (metis size_mset)

lemma index_in_range_frame:
  assumes "index_in_range s" "turnIndex s' = turnIndex s"
    "length (combatants s') = length (combatants s)"
  shows "index_in_range s'"
  using assms by (simp add: index_in_range_def split: turn_index.splits)

lemma nextTurn_index_in_range:
  assumes "index_in_range s"
  shows "index_in_range (snd (nextTurn s))"
proof (cases "isActive s")
  case False
  then show ?thesis using assms by (simp add: nextTurn_inactive)
next
  case True
  show ?thesis
  proof (cases "combatants s = []")
    case True
    then have "length (combatants (snd (nextTurn s))) = 0" by (simp add: nextTurn_frame)
    then show ?thesis by (simp add: index_in_range_def split: turn_index.splits)
  next
    case False
    then obtain t where t: "turnIndex s = Idx t" "t < length (combatants s)"
      using assms by (auto simp: index_in_range_def split: turn_index.splits)
    have "nextTurn s = nextTurn_loop 0 (length (combatants s)) s"
      using True by (simp add: nextTurn_def)
    then obtain t' where "turnIndex (snd (nextTurn s)) = Idx t'" "t' < length (combatants s)"
      using nextTurn_loop_position [OF t, of 0 "length (combatants s)"] by auto
    then show ?thesis by (simp add: index_in_range_def nextTurn_frame)
  qed
qed

lemma reachable_index_in_range: "reachable s \<Longrightarrow> index_in_range s"
proof (induction rule: reachable.induct)
  case r_init
  show ?case by (simp add: index_in_range_def initial_state_def)
next
  case (r_start cs)
  have "turnIndex (startCombat cs) = Idx 0"
    "length (combatants (startCombat cs)) = length cs"
    by (simp_all add: startCombat_def addToLog_def Let_def length_js_sort)
  then show ?case by (auto simp: index_in_range_def)
next
  case (r_attack s rnd narrate a t b d pos)
  have "length (combatants (fst (snd (processAttack rnd narrate a t b d pos s))))
          = length (combatants s)"
    using processAttack_effect [of rnd narrate a t b d pos s]
    by (auto simp: length_mutate_first)
  then show ?case
    by (intro index_in_range_frame [OF r_attack.IH])
       (use processAttack_effect [of rnd narrate a t b d pos s] in simp_all)
next
  case (r_damage s t dmg src)
  have "turnIndex (CombatManager_applyDamage t dmg src s) = turnIndex s
      \<and> length (combatants (CombatManager_applyDamage t dmg src s)) = length (combatants s)"
    by (simp add: applyDamage_effect Let_def addToLog_fields mutate_fields length_mutate_first
          split: option.splits)
  then show ?case by (intro index_in_range_frame [OF r_damage.IH]) simp_all
next
  case (r_healing s t h src)
  have "turnIndex (CombatManager_applyHealing t h src s) = turnIndex s
      \<and> length (combatants (CombatManager_applyHealing t h src s)) = length (combatants s)"
    by (simp add: applyHealing_effect Let_def addToLog_fields mutate_fields length_mutate_first
          split: option.splits)
  then show ?case by (intro index_in_range_frame [OF r_healing.IH]) simp_all
next
  case (r_next s)
  show ?case using r_next.IH by (rule nextTurn_index_in_range)
next
  case (r_check s)
  show ?case
    using r_check.IH by (rule index_in_range_frame) (simp_all add: checkCombatEnd_frame)
next
  case (r_end s)
  show ?case
    using r_end.IH by (rule index_in_range_frame) (simp_all add: endCombat_frame)
qed

lemma reachable_turnIndex:
  assumes "reachable s" "1 \<le> length (combatants s)"
  shows "\<exists>t. turnIndex s = Idx t \<and> t < length (combatants s)"
  using reachable_index_in_range [OF assms(1)] assms(2)
  by (auto simp: index_in_range_def split: turn_index.splits)

end
